theory Spec2Isabelle
  imports Main "HOL-Library.Word"
begin

unbundle bit_operations_syntax

section \<open>The Verilator harness \<open>sim/rtl_dump_main.cpp\<close>\<close>

text \<open>
  The harness streams a synthetic RGB frame through a device under test (DUT) and
  collects what the DUT returns. This theory embeds the frame source
  (\<open>generate_test_pattern\<close>), the register driver (\<open>configure_kernel\<close>) and the main
  simulation loop of \<open>main\<close> (producer, consumer, cycle driver).

  C \<open>int\<close> values are modelled as \<open>int\<close>: every arithmetic result of the harness stays far
  below \<open>2 ^ 31\<close> (the counters only grow under the loop guards), so no
  wrap-around is reachable. \<open>uint8_t\<close> and \<open>uint32_t\<close> are \<open>8 word\<close> and \<open>32 word\<close>.
\<close>

type_synonym u8 = "8 word"
type_synonym u32 = "32 word"

subsection \<open>Image parameters\<close>

definition IMAGE_WIDTH :: int where
  "IMAGE_WIDTH = 640"

definition IMAGE_HEIGHT :: int where
  "IMAGE_HEIGHT = 480"

subsection \<open>C integer division and remainder\<close>

text \<open>C and C++ truncate towards zero; \<open>div\<close> and \<open>mod\<close> of HOL round downwards.\<close>

definition c_div :: "int \<Rightarrow> int \<Rightarrow> int" where
  "c_div a b = (if (a < 0) = (b < 0) then \<bar>a\<bar> div \<bar>b\<bar> else - (\<bar>a\<bar> div \<bar>b\<bar>))"

definition c_mod :: "int \<Rightarrow> int \<Rightarrow> int" where
  "c_mod a b = a - b * c_div a b"

subsection \<open>Vector accesses\<close>

text \<open>
  \<open>operator[]\<close> of \<open>std::vector\<close> outside the vector is undefined behaviour; the model
  makes it the error \<open>OutOfBounds\<close>.
\<close>

datatype error = OutOfBounds

definition load_byte :: "u8 list \<Rightarrow> int \<Rightarrow> error + u8" where
  "load_byte v i = (if 0 \<le> i \<and> i < int (length v) then Inr (v ! nat i) else Inl OutOfBounds)"

definition store_byte :: "u8 list \<Rightarrow> int \<Rightarrow> u8 \<Rightarrow> error + u8 list" where
  "store_byte v i b = (if 0 \<le> i \<and> i < int (length v) then Inr (v[nat i := b]) else Inl OutOfBounds)"

subsection \<open>Frame source: \<open>generate_test_pattern\<close>\<close>

text \<open>
  The body of the inner loop (lines 25 to 30): the three stores of pixel \<open>(x, y)\<close>. The
  right-hand sides are \<open>int\<close> expressions converted to \<open>uint8_t\<close>.
\<close>

definition store_gradient :: "int \<Rightarrow> int \<Rightarrow> u8 list \<Rightarrow> error + u8 list" where
  "store_gradient y x img =
     (let idx = (y * IMAGE_WIDTH + x) * 3 in
      case store_byte img (idx + 0) (word_of_int (c_div (x * 255) IMAGE_WIDTH)) of
        Inl e \<Rightarrow> Inl e
      | Inr img1 \<Rightarrow>
      (case store_byte img1 (idx + 1) (word_of_int (c_div (y * 255) IMAGE_HEIGHT)) of
        Inl e \<Rightarrow> Inl e
      | Inr img2 \<Rightarrow>
         store_byte img2 (idx + 2)
           (word_of_int (c_div ((x + y) * 255) (IMAGE_WIDTH + IMAGE_HEIGHT)))))"

text \<open>The inner loop \<open>for (int x = 0; x < IMAGE_WIDTH; x++)\<close>, from column \<open>x\<close> on.\<close>

function pattern_row :: "int \<Rightarrow> int \<Rightarrow> u8 list \<Rightarrow> error + u8 list" where
  "pattern_row y x img =
     (if x < IMAGE_WIDTH then
        (case store_gradient y x img of
           Inl e \<Rightarrow> Inl e
         | Inr img' \<Rightarrow> pattern_row y (x + 1) img')
      else Inr img)"
  by pat_completeness auto
termination
  by (relation "measure (\<lambda>(y, x, img). nat (IMAGE_WIDTH - x))") auto

text \<open>The outer loop \<open>for (int y = 0; y < IMAGE_HEIGHT; y++)\<close>, from row \<open>y\<close> on.\<close>

function pattern_rows :: "int \<Rightarrow> u8 list \<Rightarrow> error + u8 list" where
  "pattern_rows y img =
     (if y < IMAGE_HEIGHT then
        (case pattern_row y 0 img of
           Inl e \<Rightarrow> Inl e
         | Inr img' \<Rightarrow> pattern_rows (y + 1) img')
      else Inr img)"
  by pat_completeness auto
termination
  by (relation "measure (\<lambda>(y, img). nat (IMAGE_HEIGHT - y))") auto

definition generate_test_pattern :: "u8 list \<Rightarrow> error + u8 list" where
  "generate_test_pattern img = pattern_rows 0 img"

text \<open>
  Lines 92 and 93 of \<open>main\<close>: the input image is a zero-initialised vector of
  \<open>IMAGE_WIDTH * IMAGE_HEIGHT * 3\<close> bytes, filled by the frame source.
\<close>

definition zero_image :: "u8 list" where
  "zero_image = replicate (nat (IMAGE_WIDTH * IMAGE_HEIGHT * 3)) 0"

definition input_image :: "error + u8 list" where
  "input_image = generate_test_pattern zero_image"

text \<open>What the frame source has to store at pixel \<open>(x, y)\<close>, read back as numbers.\<close>

definition gradient_at :: "u8 list \<Rightarrow> int \<Rightarrow> int \<Rightarrow> bool" where
  "gradient_at img y x \<longleftrightarrow>
     uint (img ! nat ((y * IMAGE_WIDTH + x) * 3)) = (x * 255) div IMAGE_WIDTH \<and>
     uint (img ! nat ((y * IMAGE_WIDTH + x) * 3 + 1)) = (y * 255) div IMAGE_HEIGHT \<and>
     uint (img ! nat ((y * IMAGE_WIDTH + x) * 3 + 2))
       = ((x + y) * 255) div (IMAGE_WIDTH + IMAGE_HEIGHT)"

subsection \<open>The device under test\<close>

text \<open>
  The class \<open>Vaxi4s_rgb_dw_pw_top\<close> is generated by Verilator and is not part of the
  sources. The harness uses it as a set of pins and one operation, \<open>eval()\<close>. The pins
  the harness writes and the pins it reads are kept in two records, so that \<open>eval\<close>
  cannot change a pin that the harness drives. One-bit pins are \<open>bool\<close>. The data pins
  of both streams and of the register port are taken to be 32-bit containers
  (\<open>uint32_t\<close>, which holds the 24-bit pixel word). The width of the \<open>tuser\<close> pins is
  not fixed by the sources: it is the type parameter \<open>'u\<close>, the container type that
  Verilator gives the port (8, 16, 32 or 64 bits).
\<close>

record (overloaded) 'u in_pins =
  clk :: bool
  rst_n :: bool
  s_axi_aclk :: bool
  s_axi_aresetn :: bool
  s_axi_awaddr :: u32
  s_axi_awvalid :: bool
  s_axi_wdata :: u32
  s_axi_wvalid :: bool
  s_axi_wstrb :: u8
  s_axis_tdata :: u32
  s_axis_tvalid :: bool
  s_axis_tlast :: bool
  s_axis_tuser :: "'u word"
  m_axis_tready :: bool

record (overloaded) 'u out_pins =
  s_axi_awready :: bool
  s_axi_wready :: bool
  s_axis_tready :: bool
  m_axis_tvalid :: bool
  m_axis_tdata :: u32
  m_axis_tuser :: "'u word"

record (overloaded) ('u, 'd) vtop =
  ipins :: "'u in_pins"
  opins :: "'u out_pins"
  internal :: 'd

text \<open>
  The behaviour of a DUT: from its internal state and the pins driven by the harness to
  the next internal state and the pins driven by the DUT. \<open>eval\<close> is \<open>dut->eval()\<close>.
\<close>

type_synonym ('u, 'd) model = "'d \<Rightarrow> 'u in_pins \<Rightarrow> 'd \<times> 'u out_pins"

definition eval :: "('u, 'd) model \<Rightarrow> ('u, 'd) vtop \<Rightarrow> ('u, 'd) vtop" where
  "eval M d = (case M (internal d) (ipins d) of (st, out) \<Rightarrow> d\<lparr>opins := out, internal := st\<rparr>)"

subsection \<open>Register driver: \<open>configure_kernel\<close>\<close>

text \<open>Lines 40 to 44: the pins of the one write that is driven.\<close>

definition drive_write :: "('u, 'd) vtop \<Rightarrow> u8 \<Rightarrow> ('u, 'd) vtop" where
  "drive_write d k00 =
     d\<lparr>ipins := (ipins d)\<lparr>s_axi_awaddr := 0x00, s_axi_awvalid := True,
                           s_axi_wdata := ucast k00, s_axi_wvalid := True,
                           s_axi_wstrb := 0xF\<rparr>\<rparr>"

definition write_ready :: "('u, 'd) vtop \<Rightarrow> bool" where
  "write_ready d \<longleftrightarrow> s_axi_awready (opins d) \<and> s_axi_wready (opins d)"

text \<open>
  Lines 47 to 49: \<open>while (!(awready && wready)) dut->eval();\<close>. The loop has no bound,
  so it is a partial function: \<open>None\<close> when it never ends.
\<close>

partial_function (option) wait_handshake :: "('u, 'd) model \<Rightarrow> ('u, 'd) vtop \<Rightarrow> ('u, 'd) vtop option" where
  "wait_handshake M d = (if \<not> write_ready d then wait_handshake M (eval M d) else Some d)"

definition configure_kernel ::
  "('u, 'd) model \<Rightarrow> ('u, 'd) vtop \<Rightarrow> u8 \<Rightarrow> u8 \<Rightarrow> u8 \<Rightarrow> u8 \<Rightarrow> u8 \<Rightarrow> u8 \<Rightarrow> u8 \<Rightarrow> u8 \<Rightarrow> u8
     \<Rightarrow> ('u, 'd) vtop option" where
  "configure_kernel M d k00 k01 k02 k10 k11 k12 k20 k21 k22 =
     (case wait_handshake M (drive_write d k00) of
        None \<Rightarrow> None
      | Some d' \<Rightarrow> Some (d'\<lparr>ipins := (ipins d')\<lparr>s_axi_awvalid := False, s_axi_wvalid := False\<rparr>\<rparr>))"

subsection \<open>The main simulation loop of \<open>main\<close>\<close>

text \<open>The variables of \<open>main\<close> that the loop changes (lines 64, 96 and 99 to 102).\<close>

record (overloaded) ('u, 'd) sim =
  dut :: "('u, 'd) vtop"
  output_image :: "u8 list"
  pixel_count :: int
  cycle_count :: int
  input_active :: bool
  output_active :: bool

text \<open>Lines 96 to 108: the state in which the loop is entered, for the DUT as it is then.\<close>

definition main_init :: "('u::len, 'd) vtop \<Rightarrow> ('u, 'd) sim" where
  "main_init d =
     \<lparr>dut = d\<lparr>ipins := (ipins d)\<lparr>s_axis_tvalid := False, s_axis_tlast := False,
                                  s_axis_tuser := 0, m_axis_tready := True\<rparr>\<rparr>,
      output_image = zero_image,
      pixel_count = 0,
      cycle_count = 0,
      input_active = True,
      output_active = False\<rparr>"

text \<open>Line 113: the condition of the \<open>while\<close>.\<close>

definition loop_cond :: "('u, 'd) sim \<Rightarrow> bool" where
  "loop_cond s \<longleftrightarrow> pixel_count s < IMAGE_WIDTH * IMAGE_HEIGHT \<and> cycle_count s < 1000000"

text \<open>Lines 124 to 126: three bytes packed into the 24-bit pixel word.\<close>

definition pack_rgb :: "u8 \<Rightarrow> u8 \<Rightarrow> u8 \<Rightarrow> u32" where
  "pack_rgb r g b = push_bit 16 (ucast b) OR push_bit 8 (ucast g) OR ucast r"

text \<open>
  Lines 119 to 148, the input side. The bytes are read in the order of the source
  (offsets 2, 1, 0). The remainders are taken after the reads, so \<open>pixel_count\<close> is not
  negative where they are evaluated. The column is converted to the type of the pin.
\<close>

definition input_side :: "u8 list \<Rightarrow> ('u::len, 'd) sim \<Rightarrow> error + ('u, 'd) sim" where
  "input_side inp s =
     (if input_active s \<and> pixel_count s < IMAGE_WIDTH * IMAGE_HEIGHT then
        (if \<not> s_axis_tvalid (ipins (dut s)) \<or>
            (s_axis_tvalid (ipins (dut s)) \<and> s_axis_tready (opins (dut s))) then
           (let pixel_idx = pixel_count s * 3 in
            case load_byte inp (pixel_idx + 2) of
              Inl e \<Rightarrow> Inl e
            | Inr b \<Rightarrow>
            (case load_byte inp (pixel_idx + 1) of
              Inl e \<Rightarrow> Inl e
            | Inr g \<Rightarrow>
            (case load_byte inp (pixel_idx + 0) of
              Inl e \<Rightarrow> Inl e
            | Inr r \<Rightarrow>
               Inr (s\<lparr>dut := (dut s)\<lparr>ipins := (ipins (dut s))
                          \<lparr>s_axis_tdata := pack_rgb r g b,
                           s_axis_tvalid := True,
                           s_axis_tlast := (c_mod (pixel_count s + 1) IMAGE_WIDTH = 0),
                           s_axis_tuser := word_of_int (c_mod (pixel_count s) IMAGE_WIDTH)\<rparr>\<rparr>,
                      pixel_count := pixel_count s + 1,
                      input_active := False\<rparr>))))
         else Inr s)
      else if s_axis_tvalid (ipins (dut s)) \<and> s_axis_tready (opins (dut s)) then
        Inr (s\<lparr>dut := (dut s)\<lparr>ipins := (ipins (dut s))
                   \<lparr>s_axis_tvalid := False, s_axis_tlast := False\<rparr>\<rparr>,
               input_active := True\<rparr>)
      else Inr s)"

text \<open>
  Lines 159 and 160: the destination pixel. The operands are converted as C++ does for
  the container type of the pin: a type narrower than \<open>int\<close> is promoted to \<open>int\<close>, and
  the arithmetic is signed; otherwise the \<open>int\<close> constants are converted to the unsigned
  type of the pin, the arithmetic wraps around at its width, and the result is converted
  to \<open>int\<close>.
\<close>

definition out_pixel_of :: "'u::len word \<Rightarrow> int" where
  "out_pixel_of tuser =
     (if LENGTH('u) < 32 then
        c_mod (uint tuser * IMAGE_WIDTH + c_mod (uint tuser + 1) IMAGE_WIDTH)
              (IMAGE_WIDTH * IMAGE_HEIGHT)
      else
        sint (ucast ((tuser * word_of_int IMAGE_WIDTH
                        + (tuser + 1) mod word_of_int IMAGE_WIDTH)
                      mod word_of_int (IMAGE_WIDTH * IMAGE_HEIGHT)) :: u32))"

text \<open>Lines 162 to 167: the guarded stores of one pixel.\<close>

definition store_pixel :: "u8 list \<Rightarrow> int \<Rightarrow> u8 \<Rightarrow> u8 \<Rightarrow> u8 \<Rightarrow> error + u8 list" where
  "store_pixel img out_pixel r g b =
     (if out_pixel < IMAGE_WIDTH * IMAGE_HEIGHT then
        (let out_idx = out_pixel * 3 in
         case store_byte img (out_idx + 0) r of
           Inl e \<Rightarrow> Inl e
         | Inr img1 \<Rightarrow>
         (case store_byte img1 (out_idx + 1) g of
           Inl e \<Rightarrow> Inl e
         | Inr img2 \<Rightarrow> store_byte img2 (out_idx + 2) b))
      else Inr img)"

text \<open>Lines 151 to 170, the output side.\<close>

definition output_side :: "('u::len, 'd) sim \<Rightarrow> error + ('u, 'd) sim" where
  "output_side s =
     (if m_axis_tvalid (opins (dut s)) \<and> m_axis_tready (ipins (dut s)) then
        (let output_data = m_axis_tdata (opins (dut s));
             r = ucast (output_data AND 0xFF) :: u8;
             g = ucast (drop_bit 8 output_data AND 0xFF) :: u8;
             b = ucast (drop_bit 16 output_data AND 0xFF) :: u8;
             out_pixel = out_pixel_of (m_axis_tuser (opins (dut s)))
         in case store_pixel (output_image s) out_pixel r g b of
              Inl e \<Rightarrow> Inl e
            | Inr img \<Rightarrow> Inr (s\<lparr>output_image := img, output_active := True\<rparr>))
      else Inr s)"

text \<open>
  Lines 114 to 176, one iteration: both clocks toggle, the input side and the output
  side run, the DUT is evaluated and the cycle counter advances. The trace dump and the
  progress message change nothing the loop reads.
\<close>

definition toggle_clocks :: "('u, 'd) sim \<Rightarrow> ('u, 'd) sim" where
  "toggle_clocks s =
     s\<lparr>dut := (dut s)\<lparr>ipins := (ipins (dut s))
           \<lparr>clk := \<not> clk (ipins (dut s)), s_axi_aclk := \<not> s_axi_aclk (ipins (dut s))\<rparr>\<rparr>\<rparr>"

definition loop_body :: "('u::len, 'd) model \<Rightarrow> u8 list \<Rightarrow> ('u, 'd) sim \<Rightarrow> error + ('u, 'd) sim" where
  "loop_body M inp s =
     (case input_side inp (toggle_clocks s) of
        Inl e \<Rightarrow> Inl e
      | Inr s1 \<Rightarrow>
     (case output_side s1 of
        Inl e \<Rightarrow> Inl e
      | Inr s2 \<Rightarrow> Inr (s2\<lparr>dut := eval M (dut s2), cycle_count := cycle_count s2 + 1\<rparr>)))"

function main_loop :: "('u::len, 'd) model \<Rightarrow> u8 list \<Rightarrow> ('u, 'd) sim \<Rightarrow> error + ('u, 'd) sim" where
  "main_loop M inp s =
     (if loop_cond s then
        (case loop_body M inp s of
           Inl e \<Rightarrow> Inl e
         | Inr s' \<Rightarrow> main_loop M inp s')
      else Inr s)"
  by pat_completeness auto
termination
  apply (relation "measure (\<lambda>(M, inp, s). nat (1000000 - cycle_count s))")
   apply simp
  apply (auto simp: loop_cond_def loop_body_def input_side_def output_side_def toggle_clocks_def
      Let_def split: sum.splits if_splits)
  done

text \<open>
  The loop with a bound on the iterations: the state after at most \<open>k\<close> iterations (the
  state at the exit, when the loop has ended before).
\<close>

fun loop_steps :: "nat \<Rightarrow> ('u::len, 'd) model \<Rightarrow> u8 list \<Rightarrow> ('u, 'd) sim \<Rightarrow> error + ('u, 'd) sim" where
  "loop_steps 0 M inp s = Inr s"
| "loop_steps (Suc k) M inp s =
     (if loop_cond s then
        (case loop_body M inp s of
           Inl e \<Rightarrow> Inl e
         | Inr s' \<Rightarrow> loop_steps k M inp s')
      else Inr s)"

text \<open>The number of iterations that the loop runs.\<close>

function loop_iters :: "('u::len, 'd) model \<Rightarrow> u8 list \<Rightarrow> ('u, 'd) sim \<Rightarrow> nat" where
  "loop_iters M inp s =
     (if loop_cond s then
        (case loop_body M inp s of
           Inl e \<Rightarrow> 1
         | Inr s' \<Rightarrow> Suc (loop_iters M inp s'))
      else 0)"
  by pat_completeness auto
termination
  apply (relation "measure (\<lambda>(M, inp, s). nat (1000000 - cycle_count s))")
   apply simp
  apply (auto simp: loop_cond_def loop_body_def input_side_def output_side_def toggle_clocks_def
      Let_def split: sum.splits if_splits)
  done

subsection \<open>Some devices, for concrete runs\<close>

text \<open>
  A DUT at rest, with 16-bit \<open>tuser\<close> pins (the container of a port that carries the
  column, \<open>0\<close> to \<open>639\<close>), and four behaviours: one that accepts every input and never
  produces output, one that never accepts, a wire from the input stream to the output
  stream, and a register port that becomes ready at the second evaluation.
\<close>

definition idle_in :: "16 in_pins" where
  "idle_in =
     \<lparr>clk = False, rst_n = True, s_axi_aclk = False, s_axi_aresetn = True,
      s_axi_awaddr = 0, s_axi_awvalid = False, s_axi_wdata = 0, s_axi_wvalid = False,
      s_axi_wstrb = 0, s_axis_tdata = 0, s_axis_tvalid = False, s_axis_tlast = False,
      s_axis_tuser = 0, m_axis_tready = False\<rparr>"

definition idle_out :: "16 out_pins" where
  "idle_out =
     \<lparr>s_axi_awready = False, s_axi_wready = False, s_axis_tready = False,
      m_axis_tvalid = False, m_axis_tdata = 0, m_axis_tuser = 0\<rparr>"

definition idle_top :: "(16, unit) vtop" where
  "idle_top = \<lparr>ipins = idle_in, opins = idle_out, internal = ()\<rparr>"

definition counting_top :: "(16, nat) vtop" where
  "counting_top = \<lparr>ipins = idle_in, opins = idle_out, internal = 0\<rparr>"

definition sink_model :: "(16, unit) model" where
  "sink_model st i =
     (st, idle_out\<lparr>s_axi_awready := True, s_axi_wready := True, s_axis_tready := True\<rparr>)"

definition stall_model :: "(16, unit) model" where
  "stall_model st i = (st, idle_out)"

definition identity_model :: "(16, unit) model" where
  "identity_model st i =
     (st, \<lparr>s_axi_awready = True, s_axi_wready = True, s_axis_tready = m_axis_tready i,
           m_axis_tvalid = s_axis_tvalid i, m_axis_tdata = s_axis_tdata i,
           m_axis_tuser = s_axis_tuser i\<rparr>)"

definition slow_write_model :: "(16, nat) model" where
  "slow_write_model n i =
     (Suc n, idle_out\<lparr>s_axi_awready := (1 \<le> n), s_axi_wready := (1 \<le> n)\<rparr>)"

text \<open>A DUT that offers one output transfer with a column beyond the image height.\<close>

definition offering_top :: "(16, unit) vtop" where
  "offering_top =
     idle_top\<lparr>opins := idle_out\<lparr>m_axis_tvalid := True, m_axis_tdata := 0x030201,
                                 m_axis_tuser := 1000\<rparr>\<rparr>"

subsection \<open>Predicates for the proofs\<close>

text \<open>
  The state after the producer has offered pixel \<open>pixel_count s\<close> (lines 121 to 141), and
  the state after it has retired an accepted transfer (lines 145 to 147).
\<close>

definition offered :: "u8 list \<Rightarrow> ('u::len, 'd) sim \<Rightarrow> ('u, 'd) sim" where
  "offered inp s =
     s\<lparr>dut := (dut s)\<lparr>ipins := (ipins (dut s))
            \<lparr>s_axis_tdata := pack_rgb (inp ! nat (pixel_count s * 3))
                                       (inp ! nat (pixel_count s * 3 + 1))
                                       (inp ! nat (pixel_count s * 3 + 2)),
             s_axis_tvalid := True,
             s_axis_tlast := ((pixel_count s + 1) mod IMAGE_WIDTH = 0),
             s_axis_tuser := word_of_int (pixel_count s mod IMAGE_WIDTH)\<rparr>\<rparr>,
       pixel_count := pixel_count s + 1,
       input_active := False\<rparr>"

definition retired :: "('u, 'd) sim \<Rightarrow> ('u, 'd) sim" where
  "retired s =
     s\<lparr>dut := (dut s)\<lparr>ipins := (ipins (dut s))
            \<lparr>s_axis_tvalid := False, s_axis_tlast := False\<rparr>\<rparr>,
       input_active := True\<rparr>"

text \<open>
  The invariant of the producer: it is idle exactly when valid is low, the counter stays
  in \<open>[0, W * H]\<close>, and while valid is high the pins carry the pixel offered last,
  \<open>pixel_count s - 1\<close>.
\<close>

definition offer_inv :: "u8 list \<Rightarrow> ('u::len, 'd) sim \<Rightarrow> bool" where
  "offer_inv inp s \<longleftrightarrow>
     (input_active s \<longleftrightarrow> \<not> s_axis_tvalid (ipins (dut s))) \<and>
     0 \<le> pixel_count s \<and> pixel_count s \<le> IMAGE_WIDTH * IMAGE_HEIGHT \<and>
     (s_axis_tvalid (ipins (dut s)) \<longrightarrow>
        0 < pixel_count s \<and>
        s_axis_tdata (ipins (dut s))
          = pack_rgb (inp ! nat ((pixel_count s - 1) * 3))
                     (inp ! nat ((pixel_count s - 1) * 3 + 1))
                     (inp ! nat ((pixel_count s - 1) * 3 + 2)) \<and>
        (s_axis_tlast (ipins (dut s)) \<longleftrightarrow> pixel_count s mod IMAGE_WIDTH = 0) \<and>
        s_axis_tuser (ipins (dut s)) = word_of_int ((pixel_count s - 1) mod IMAGE_WIDTH))"

text \<open>
  The invariant of the run with \<open>sink_model\<close>: no output, and two cycles for each pixel.
\<close>

definition sink_inv :: "(16, unit) sim \<Rightarrow> bool" where
  "sink_inv s \<longleftrightarrow>
     (input_active s \<longleftrightarrow> \<not> s_axis_tvalid (ipins (dut s))) \<and>
     0 \<le> pixel_count s \<and> pixel_count s \<le> IMAGE_WIDTH * IMAGE_HEIGHT \<and>
     \<not> m_axis_tvalid (opins (dut s)) \<and> \<not> output_active s \<and> output_image s = zero_image \<and>
     (if input_active s
      then cycle_count s = 2 * pixel_count s \<and> pixel_count s < IMAGE_WIDTH * IMAGE_HEIGHT
      else cycle_count s + 1 = 2 * pixel_count s \<and> s_axis_tready (opins (dut s)))"

text \<open>
  The invariant of the run with \<open>identity_model\<close>: the columns on both streams stay below
  \<open>W\<close>, and byte 9 of the output buffer is never written.
\<close>

definition wire_inv :: "u8 list \<Rightarrow> (16, unit) sim \<Rightarrow> bool" where
  "wire_inv inp s \<longleftrightarrow>
     offer_inv inp s \<and>
     int (length (output_image s)) = IMAGE_WIDTH * IMAGE_HEIGHT * 3 \<and>
     output_image s ! 9 = 0 \<and>
     uint (s_axis_tuser (ipins (dut s))) < 640 \<and>
     uint (m_axis_tuser (opins (dut s))) < 640"

section \<open>Auxiliary facts\<close>

subsection \<open>Arithmetic of C and the frame source\<close>

lemma c_div_nonneg: "0 \<le> a \<Longrightarrow> 0 < b \<Longrightarrow> c_div a b = a div b"
  by (simp add: c_div_def)

lemma c_mod_nonneg: "0 \<le> a \<Longrightarrow> 0 < b \<Longrightarrow> c_mod a b = a mod b"
  by (simp add: c_mod_def c_div_nonneg minus_mult_div_eq_mod)

lemma uint_u8_of_int: "0 \<le> v \<Longrightarrow> v < 256 \<Longrightarrow> uint (word_of_int v :: u8) = v"
  by (simp add: uint_word_of_int take_bit_eq_mod)

lemma store_gradient_ok:
  assumes "0 \<le> y" "y < IMAGE_HEIGHT" "0 \<le> x" "x < IMAGE_WIDTH"
    and "length img = nat (IMAGE_WIDTH * IMAGE_HEIGHT * 3)"
  shows "\<exists>img'. store_gradient y x img = Inr img' \<and> length img' = length img \<and>
           gradient_at img' y x \<and>
           (\<forall>j. j < nat ((y * IMAGE_WIDTH + x) * 3) \<or> nat ((y * IMAGE_WIDTH + x) * 3 + 2) < j
                \<longrightarrow> img' ! j = img ! j)"
proof -
  let ?i = "(y * IMAGE_WIDTH + x) * 3"
  have lo: "0 \<le> ?i" using assms by (simp add: IMAGE_WIDTH_def)
  have hi: "?i + 2 < int (length img)"
    using assms by (simp add: IMAGE_WIDTH_def IMAGE_HEIGHT_def)
  have r: "uint (word_of_int (c_div (x * 255) IMAGE_WIDTH) :: u8) = (x * 255) div IMAGE_WIDTH"
    using assms by (subst uint_u8_of_int) (simp_all add: c_div_nonneg IMAGE_WIDTH_def)
  have g: "uint (word_of_int (c_div (y * 255) IMAGE_HEIGHT) :: u8) = (y * 255) div IMAGE_HEIGHT"
    using assms by (subst uint_u8_of_int) (simp_all add: c_div_nonneg IMAGE_HEIGHT_def)
  have b: "uint (word_of_int (c_div ((x + y) * 255) (IMAGE_WIDTH + IMAGE_HEIGHT)) :: u8)
             = ((x + y) * 255) div (IMAGE_WIDTH + IMAGE_HEIGHT)"
    using assms by (subst uint_u8_of_int) (simp_all add: c_div_nonneg IMAGE_WIDTH_def IMAGE_HEIGHT_def)
  have n1: "nat (?i + 1) = nat ?i + 1" and n2: "nat (?i + 2) = nat ?i + 2"
    using lo by (simp_all add: nat_add_distrib)
  have len: "nat ?i + 2 < length img" using lo hi by linarith
  show ?thesis
    using lo hi len r g b
    by (simp add: store_gradient_def store_byte_def Let_def gradient_at_def n1 n2)
qed

lemma pattern_row_ok:
  assumes "0 \<le> y" "y < IMAGE_HEIGHT" "0 \<le> x" "x \<le> IMAGE_WIDTH"
    and "length img = nat (IMAGE_WIDTH * IMAGE_HEIGHT * 3)"
  shows "\<exists>img'. pattern_row y x img = Inr img' \<and> length img' = length img \<and>
           (\<forall>x'. x \<le> x' \<and> x' < IMAGE_WIDTH \<longrightarrow> gradient_at img' y x') \<and>
           (\<forall>j. j < nat ((y * IMAGE_WIDTH + x) * 3) \<or> nat ((y * IMAGE_WIDTH + IMAGE_WIDTH) * 3) \<le> j
                \<longrightarrow> img' ! j = img ! j)"
  using assms
proof (induction y x img rule: pattern_row.induct)
  case (1 y x img)
  show ?case
  proof (cases "x < IMAGE_WIDTH")
    case False
    with "1.prems" show ?thesis by auto
  next
    case True
    from store_gradient_ok [OF "1.prems"(1,2,3) True "1.prems"(5)]
    obtain img1 where s1: "store_gradient y x img = Inr img1"
      and l1: "length img1 = length img"
      and g1: "gradient_at img1 y x"
      and f1: "\<And>j. j < nat ((y * IMAGE_WIDTH + x) * 3) \<or> nat ((y * IMAGE_WIDTH + x) * 3 + 2) < j
                \<Longrightarrow> img1 ! j = img ! j"
      by blast
    from "1.IH" [OF True s1 "1.prems"(1,2)] True "1.prems" l1
    obtain img2 where s2: "pattern_row y (x + 1) img1 = Inr img2"
      and l2: "length img2 = length img1"
      and g2: "\<And>x'. x + 1 \<le> x' \<Longrightarrow> x' < IMAGE_WIDTH \<Longrightarrow> gradient_at img2 y x'"
      and f2: "\<And>j. j < nat ((y * IMAGE_WIDTH + (x + 1)) * 3) \<or> nat ((y * IMAGE_WIDTH + IMAGE_WIDTH) * 3) \<le> j
                \<Longrightarrow> img2 ! j = img1 ! j"
      by force
    have run: "pattern_row y x img = Inr img2"
      using True s1 s2 by simp
    have lo: "0 \<le> (y * IMAGE_WIDTH + x) * 3"
      using "1.prems" by (simp add: IMAGE_WIDTH_def)
    have here: "gradient_at img2 y x"
      using g1 lo f2 [of "nat ((y * IMAGE_WIDTH + x) * 3)"]
        f2 [of "nat ((y * IMAGE_WIDTH + x) * 3 + 1)"] f2 [of "nat ((y * IMAGE_WIDTH + x) * 3 + 2)"]
      by (simp add: gradient_at_def nat_less_iff)
    have all: "gradient_at img2 y x'" if "x \<le> x'" "x' < IMAGE_WIDTH" for x'
      using that here g2 [of x'] by (cases "x' = x") simp_all
    have frame: "img2 ! j = img ! j"
      if "j < nat ((y * IMAGE_WIDTH + x) * 3) \<or> nat ((y * IMAGE_WIDTH + IMAGE_WIDTH) * 3) \<le> j" for j
    proof -
      have "img2 ! j = img1 ! j"
        using that lo by (intro f2) (auto simp: IMAGE_WIDTH_def)
      also have "img1 ! j = img ! j"
        using that lo True by (intro f1) (auto simp: IMAGE_WIDTH_def)
      finally show ?thesis .
    qed
    show ?thesis
      using run l1 l2 all frame by simp
  qed
qed

lemma pattern_rows_ok:
  assumes "0 \<le> y" "y \<le> IMAGE_HEIGHT"
    and "length img = nat (IMAGE_WIDTH * IMAGE_HEIGHT * 3)"
  shows "\<exists>img'. pattern_rows y img = Inr img' \<and> length img' = length img \<and>
           (\<forall>y' x'. y \<le> y' \<and> y' < IMAGE_HEIGHT \<and> 0 \<le> x' \<and> x' < IMAGE_WIDTH
                \<longrightarrow> gradient_at img' y' x') \<and>
           (\<forall>j. j < nat (y * IMAGE_WIDTH * 3) \<longrightarrow> img' ! j = img ! j)"
  using assms
proof (induction y img rule: pattern_rows.induct)
  case (1 y img)
  show ?case
  proof (cases "y < IMAGE_HEIGHT")
    case False
    with "1.prems" show ?thesis by auto
  next
    case True
    have w: "(0::int) \<le> 0" "0 \<le> IMAGE_WIDTH" by (simp_all add: IMAGE_WIDTH_def)
    from pattern_row_ok [OF "1.prems"(1) True w "1.prems"(3)]
    obtain img1 where s1: "pattern_row y 0 img = Inr img1"
      and l1: "length img1 = length img"
      and g1: "\<And>x'. 0 \<le> x' \<Longrightarrow> x' < IMAGE_WIDTH \<Longrightarrow> gradient_at img1 y x'"
      and f1: "\<And>j. j < nat ((y * IMAGE_WIDTH + 0) * 3) \<or> nat ((y * IMAGE_WIDTH + IMAGE_WIDTH) * 3) \<le> j
                \<Longrightarrow> img1 ! j = img ! j"
      by blast
    have "0 \<le> y + 1" "y + 1 \<le> IMAGE_HEIGHT" "length img1 = nat (IMAGE_WIDTH * IMAGE_HEIGHT * 3)"
      using True "1.prems" l1 by simp_all
    from "1.IH" [OF True s1 this]
    obtain img2 where s2: "pattern_rows (y + 1) img1 = Inr img2"
      and l2: "length img2 = length img1"
      and g2: "\<And>y' x'. y + 1 \<le> y' \<Longrightarrow> y' < IMAGE_HEIGHT \<Longrightarrow> 0 \<le> x' \<Longrightarrow> x' < IMAGE_WIDTH
                 \<Longrightarrow> gradient_at img2 y' x'"
      and f2: "\<And>j. j < nat ((y + 1) * IMAGE_WIDTH * 3) \<Longrightarrow> img2 ! j = img1 ! j"
      by blast
    have run: "pattern_rows y img = Inr img2"
      using True s1 s2 by simp
    have here: "gradient_at img2 y x'" if "0 \<le> x'" "x' < IMAGE_WIDTH" for x'
    proof -
      have "nat ((y * IMAGE_WIDTH + x') * 3) < nat ((y + 1) * IMAGE_WIDTH * 3)"
        "nat ((y * IMAGE_WIDTH + x') * 3 + 1) < nat ((y + 1) * IMAGE_WIDTH * 3)"
        "nat ((y * IMAGE_WIDTH + x') * 3 + 2) < nat ((y + 1) * IMAGE_WIDTH * 3)"
        using that "1.prems"(1) by (simp_all add: IMAGE_WIDTH_def)
      then show ?thesis
        using g1 [OF that] by (simp add: gradient_at_def f2)
    qed
    have all: "gradient_at img2 y' x'"
      if "y \<le> y'" "y' < IMAGE_HEIGHT" "0 \<le> x'" "x' < IMAGE_WIDTH" for y' x'
      using that here [of x'] g2 [of y' x'] by (cases "y' = y") simp_all
    have frame: "img2 ! j = img ! j" if "j < nat (y * IMAGE_WIDTH * 3)" for j
    proof -
      have "img2 ! j = img1 ! j"
        using that "1.prems" by (intro f2) (auto simp: IMAGE_WIDTH_def)
      also have "img1 ! j = img ! j"
        using that by (intro f1) (auto simp: IMAGE_WIDTH_def)
      finally show ?thesis .
    qed
    show ?thesis
      using run l1 l2 all frame by simp
  qed
qed

lemma length_zero_image: "length zero_image = nat (IMAGE_WIDTH * IMAGE_HEIGHT * 3)"
  by (simp add: zero_image_def)

lemma generate_test_pattern_ok:
  "\<exists>img. input_image = Inr img \<and> length img = nat (IMAGE_WIDTH * IMAGE_HEIGHT * 3) \<and>
     (\<forall>y x. 0 \<le> y \<and> y < IMAGE_HEIGHT \<and> 0 \<le> x \<and> x < IMAGE_WIDTH \<longrightarrow> gradient_at img y x)"
proof -
  have h: "(0::int) \<le> 0" "0 \<le> IMAGE_HEIGHT" by (simp_all add: IMAGE_HEIGHT_def)
  from pattern_rows_ok [OF h length_zero_image] obtain img where
    "pattern_rows 0 zero_image = Inr img" "length img = length zero_image"
    "\<forall>y' x'. 0 \<le> y' \<and> y' < IMAGE_HEIGHT \<and> 0 \<le> x' \<and> x' < IMAGE_WIDTH
                \<longrightarrow> gradient_at img y' x'"
    by blast
  then show ?thesis
    unfolding input_image_def generate_test_pattern_def length_zero_image by blast
qed

lemma image_size: "nat (IMAGE_WIDTH * IMAGE_HEIGHT * 3) = 921600"
  by (simp add: IMAGE_WIDTH_def IMAGE_HEIGHT_def)

subsection \<open>The consumer and the loop\<close>

lemma sint_ucast_small:
  fixes w :: "'u::len word"
  assumes "uint w < 2 ^ 31"
  shows "sint (ucast w :: u32) = uint w"
proof -
  have "uint (ucast w :: u32) = take_bit 32 (uint w)"
    by (simp add: unsigned_ucast_eq)
  also have "\<dots> = uint w"
    using assms by (simp add: take_bit_int_eq_self)
  finally have u: "uint (ucast w :: u32) = uint w" .
  have "sint (ucast w :: u32) = signed_take_bit 31 (uint (ucast w :: u32))"
    by (simp add: sint_uint)
  also have "\<dots> = signed_take_bit 31 (uint w)"
    by (simp only: u)
  also have "\<dots> = uint w"
  proof (rule signed_take_bit_int_eq_self)
    have "- (2 ^ 31) \<le> (0::int)" by simp
    also have "0 \<le> uint w" by simp
    finally show "- (2 ^ 31) \<le> uint w" .
    show "uint w < 2 ^ 31" by (rule assms)
  qed
  finally show ?thesis .
qed

lemma uint_big_const:
  assumes "32 \<le> LENGTH('u::len)" "0 \<le> k" "k < 2 ^ 32"
  shows "uint (word_of_int k :: 'u word) = k"
proof -
  have "(2::int) ^ 32 \<le> 2 ^ LENGTH('u)"
    using assms(1) by (intro power_increasing) simp_all
  with assms show ?thesis
    by (simp add: uint_word_of_int)
qed

lemma out_pixel_range:
  "0 \<le> out_pixel_of (u :: 'u::len word) \<and> out_pixel_of u < IMAGE_WIDTH * IMAGE_HEIGHT"
proof (cases "LENGTH('u) < 32")
  case True
  have "0 \<le> uint u * IMAGE_WIDTH + c_mod (uint u + 1) IMAGE_WIDTH"
    by (simp add: c_mod_nonneg IMAGE_WIDTH_def)
  then have "out_pixel_of u = (uint u * IMAGE_WIDTH + c_mod (uint u + 1) IMAGE_WIDTH)
      mod (IMAGE_WIDTH * IMAGE_HEIGHT)"
    using True by (simp add: out_pixel_of_def c_mod_nonneg IMAGE_WIDTH_def IMAGE_HEIGHT_def)
  then show ?thesis
    by (simp add: IMAGE_WIDTH_def IMAGE_HEIGHT_def)
next
  case False
  then have big: "32 \<le> LENGTH('u)" by simp
  let ?w = "(u * word_of_int IMAGE_WIDTH + (u + 1) mod word_of_int IMAGE_WIDTH)
              mod (word_of_int (IMAGE_WIDTH * IMAGE_HEIGHT) :: 'u word)"
  have m: "uint (word_of_int (IMAGE_WIDTH * IMAGE_HEIGHT) :: 'u word) = 307200"
    using uint_big_const [OF big, of 307200] by (simp add: IMAGE_WIDTH_def IMAGE_HEIGHT_def)
  have "uint ?w = uint (u * word_of_int IMAGE_WIDTH + (u + 1) mod word_of_int IMAGE_WIDTH) mod 307200"
    by (simp only: uint_mod m)
  then have r: "0 \<le> uint ?w" "uint ?w < 307200"
    by simp_all
  then have "sint (ucast ?w :: u32) = uint ?w"
    by (intro sint_ucast_small) simp
  then have "out_pixel_of u = uint ?w"
    using False by (simp add: out_pixel_of_def)
  with r show ?thesis
    by (simp add: IMAGE_WIDTH_def IMAGE_HEIGHT_def)
qed

lemma store_pixel_in_range:
  assumes "0 \<le> p" "p < IMAGE_WIDTH * IMAGE_HEIGHT"
    and "int (length img) = IMAGE_WIDTH * IMAGE_HEIGHT * 3"
  shows "store_pixel img p r g b
           = Inr (img[nat (p * 3) := r, nat (p * 3) + 1 := g, nat (p * 3) + 2 := b])"
proof -
  have n1: "nat (p * 3 + 1) = nat (p * 3) + 1" and n2: "nat (p * 3 + 2) = nat (p * 3) + 2"
    using assms(1) by (simp_all add: nat_add_distrib)
  have "p * 3 + 2 < int (length img)"
    using assms by simp
  then show ?thesis
    using assms(1,2) by (simp add: store_pixel_def store_byte_def Let_def n1 n2)
qed

lemma store_pixel_dropped:
  "IMAGE_WIDTH * IMAGE_HEIGHT \<le> p \<Longrightarrow> store_pixel img p r g b = Inr img"
  by (simp add: store_pixel_def)

lemma output_side_accept:
  fixes s :: "('u::len, 'd) sim"
  assumes "m_axis_tvalid (opins (dut s))" "m_axis_tready (ipins (dut s))"
    and "int (length (output_image s)) = IMAGE_WIDTH * IMAGE_HEIGHT * 3"
  shows "output_side s =
     Inr (s\<lparr>output_image := (output_image s)
              [nat (out_pixel_of (m_axis_tuser (opins (dut s))) * 3)
                 := ucast (m_axis_tdata (opins (dut s)) AND 0xFF),
               nat (out_pixel_of (m_axis_tuser (opins (dut s))) * 3) + 1
                 := ucast (drop_bit 8 (m_axis_tdata (opins (dut s))) AND 0xFF),
               nat (out_pixel_of (m_axis_tuser (opins (dut s))) * 3) + 2
                 := ucast (drop_bit 16 (m_axis_tdata (opins (dut s))) AND 0xFF)],
            output_active := True\<rparr>)"
proof -
  let ?p = "out_pixel_of (m_axis_tuser (opins (dut s)))"
  have "0 \<le> ?p" "?p < IMAGE_WIDTH * IMAGE_HEIGHT"
    using out_pixel_range [of "m_axis_tuser (opins (dut s))"] by simp_all
  from store_pixel_in_range [OF this assms(3)] show ?thesis
    using assms(1,2) by (simp add: output_side_def Let_def)
qed

lemma output_side_idle:
  "\<not> (m_axis_tvalid (opins (dut s)) \<and> m_axis_tready (ipins (dut s))) \<Longrightarrow> output_side s = Inr s"
  by (auto simp: output_side_def)

lemma output_side_frame:
  assumes "output_side s = Inr s'"
  shows "dut s' = dut s \<and> pixel_count s' = pixel_count s \<and> cycle_count s' = cycle_count s \<and>
         input_active s' = input_active s"
  using assms by (auto simp: output_side_def Let_def split: if_splits sum.splits)

lemma input_side_frame:
  assumes "input_side inp s = Inr s'"
  shows "opins (dut s') = opins (dut s) \<and> internal (dut s') = internal (dut s) \<and>
         output_image s' = output_image s \<and> cycle_count s' = cycle_count s \<and>
         output_active s' = output_active s \<and>
         m_axis_tready (ipins (dut s')) = m_axis_tready (ipins (dut s))"
  using assms by (auto simp: input_side_def Let_def split: if_splits sum.splits)

lemma eval_ipins [simp]: "ipins (eval M d) = ipins d"
  by (simp add: eval_def split: prod.splits)

lemma loop_body_split:
  assumes "loop_body M inp s = Inr s'"
  obtains s1 s2 where "input_side inp (toggle_clocks s) = Inr s1" "output_side s1 = Inr s2"
    "s' = s2\<lparr>dut := eval M (dut s2), cycle_count := cycle_count s2 + 1\<rparr>"
  using assms by (auto simp: loop_body_def split: sum.splits)

lemma loop_steps_snoc:
  "loop_steps (Suc k) M inp s =
     (case loop_steps k M inp s of
        Inl e \<Rightarrow> Inl e
      | Inr t \<Rightarrow> if loop_cond t then loop_body M inp t else Inr t)"
proof (induction k arbitrary: s)
  case 0
  show ?case by (simp split: sum.splits)
next
  case (Suc k)
  show ?case
  proof (cases "loop_cond s")
    case False
    then show ?thesis by simp
  next
    case True
    show ?thesis
    proof (cases "loop_body M inp s")
      case (Inl e)
      with True show ?thesis by simp
    next
      case (Inr s1)
      have "loop_steps (Suc (Suc k)) M inp s = loop_steps (Suc k) M inp s1"
        using True Inr by simp
      also have "\<dots> = (case loop_steps k M inp s1 of
          Inl e \<Rightarrow> Inl e | Inr t \<Rightarrow> if loop_cond t then loop_body M inp t else Inr t)"
        by (rule Suc.IH)
      also have "loop_steps k M inp s1 = loop_steps (Suc k) M inp s"
        using True Inr by simp
      finally show ?thesis .
    qed
  qed
qed

lemma loop_steps_invariant:
  assumes "P s0"
    and "\<And>s s'. P s \<Longrightarrow> loop_cond s \<Longrightarrow> loop_body M inp s = Inr s' \<Longrightarrow> P s'"
    and "loop_steps k M inp s0 = Inr s"
  shows "P s"
  using assms(3,1)
proof (induction k arbitrary: s0)
  case 0
  then show ?case by simp
next
  case (Suc k)
  show ?case
  proof (cases "loop_cond s0")
    case False
    with Suc.prems show ?thesis by simp
  next
    case True
    with Suc.prems obtain s1 where b: "loop_body M inp s0 = Inr s1"
      and r: "loop_steps k M inp s1 = Inr s"
      by (auto split: sum.splits)
    from assms(2) [OF Suc.prems(2) True b] have "P s1" .
    from Suc.IH [OF r this] show ?thesis .
  qed
qed

lemma main_loop_steps:
  "main_loop M inp s = loop_steps (loop_iters M inp s) M inp s"
proof (induction M inp s rule: main_loop.induct)
  case (1 M inp s)
  show ?case
  proof (cases "loop_cond s")
    case False
    then show ?thesis by simp
  next
    case True
    show ?thesis
    proof (cases "loop_body M inp s")
      case (Inl e)
      with True show ?thesis by simp
    next
      case (Inr s1)
      from "1.IH" [OF True Inr] True Inr show ?thesis by simp
    qed
  qed
qed

lemma loop_iters_bound:
  "int (loop_iters M inp s) \<le> max 0 (1000000 - cycle_count s)"
proof (induction M inp s rule: loop_iters.induct)
  case (1 M inp s)
  show ?case
  proof (cases "loop_cond s")
    case False
    then show ?thesis by simp
  next
    case True
    then have c: "cycle_count s < 1000000" by (simp add: loop_cond_def)
    show ?thesis
    proof (cases "loop_body M inp s")
      case (Inl e)
      with True c show ?thesis by simp
    next
      case (Inr s1)
      then have "cycle_count s1 = cycle_count s + 1"
        by (elim loop_body_split) (auto dest!: input_side_frame output_side_frame simp: toggle_clocks_def)
      with "1.IH" [OF True Inr] True Inr c show ?thesis by simp
    qed
  qed
qed

lemma update3_changed:
  assumes "xs[a := r, a + 1 := g, a + 2 := b] ! j \<noteq> xs ! j"
  shows "j = a \<or> j = a + 1 \<or> j = a + 2"
proof (rule ccontr)
  assume "\<not> ?thesis"
  then have "xs[a := r, a + 1 := g, a + 2 := b] ! j = xs ! j"
    by simp
  with assms show False by simp
qed

lemma main_init_offering:
  "output_image (main_init offering_top) = zero_image"
  "m_axis_tvalid (opins (dut (main_init offering_top)))"
  "m_axis_tready (ipins (dut (main_init offering_top)))"
  "m_axis_tuser (opins (dut (main_init offering_top))) = 1000"
  "m_axis_tdata (opins (dut (main_init offering_top))) = 0x030201"
  by (simp_all add: main_init_def offering_top_def idle_top_def idle_out_def)

lemma zero_image_size: "int (length zero_image) = IMAGE_WIDTH * IMAGE_HEIGHT * 3"
  by (simp add: zero_image_def IMAGE_WIDTH_def IMAGE_HEIGHT_def)

lemma out_pixel_1000: "out_pixel_of (1000 :: 16 word) = 25961"
  by (simp add: out_pixel_of_def c_mod_def c_div_def IMAGE_WIDTH_def IMAGE_HEIGHT_def)

subsection \<open>The producer, the loop and the concrete devices\<close>

lemma input_side_cases:
  "input_side inp s =
     (if input_active s \<and> pixel_count s < IMAGE_WIDTH * IMAGE_HEIGHT then
        (if \<not> s_axis_tvalid (ipins (dut s)) \<or> s_axis_tready (opins (dut s)) then
           (if 0 \<le> pixel_count s \<and> pixel_count s * 3 + 2 < int (length inp)
            then Inr (offered inp s) else Inl OutOfBounds)
         else Inr s)
      else if s_axis_tvalid (ipins (dut s)) \<and> s_axis_tready (opins (dut s)) then Inr (retired s)
      else Inr s)"
proof (cases "0 \<le> pixel_count s")
  case True
  then have n: "nat (pixel_count s * 3 + 1) = nat (pixel_count s * 3) + 1"
    "nat (pixel_count s * 3 + 2) = nat (pixel_count s * 3) + 2"
    by (simp_all add: nat_add_distrib)
  have m: "c_mod (pixel_count s + 1) IMAGE_WIDTH = (pixel_count s + 1) mod IMAGE_WIDTH"
    "c_mod (pixel_count s) IMAGE_WIDTH = pixel_count s mod IMAGE_WIDTH"
    using True by (simp_all add: c_mod_nonneg IMAGE_WIDTH_def)
  show ?thesis
    using True
    by (auto simp: input_side_def load_byte_def Let_def offered_def retired_def m)
next
  case False
  then show ?thesis
    by (auto simp: input_side_def load_byte_def Let_def retired_def)
qed

lemma toggle_clocks_simps [simp]:
  "s_axis_tvalid (ipins (dut (toggle_clocks s))) = s_axis_tvalid (ipins (dut s))"
  "s_axis_tdata (ipins (dut (toggle_clocks s))) = s_axis_tdata (ipins (dut s))"
  "s_axis_tlast (ipins (dut (toggle_clocks s))) = s_axis_tlast (ipins (dut s))"
  "s_axis_tuser (ipins (dut (toggle_clocks s))) = s_axis_tuser (ipins (dut s))"
  "m_axis_tready (ipins (dut (toggle_clocks s))) = m_axis_tready (ipins (dut s))"
  "opins (dut (toggle_clocks s)) = opins (dut s)"
  "internal (dut (toggle_clocks s)) = internal (dut s)"
  "pixel_count (toggle_clocks s) = pixel_count s"
  "cycle_count (toggle_clocks s) = cycle_count s"
  "input_active (toggle_clocks s) = input_active s"
  "output_active (toggle_clocks s) = output_active s"
  "output_image (toggle_clocks s) = output_image s"
  by (simp_all add: toggle_clocks_def)

lemma loop_body_producer:
  assumes "loop_body M inp s = Inr s'"
  obtains s1 where "input_side inp (toggle_clocks s) = Inr s1"
    "ipins (dut s') = ipins (dut s1)" "pixel_count s' = pixel_count s1"
    "input_active s' = input_active s1"
proof -
  from assms obtain s1 s2 where i: "input_side inp (toggle_clocks s) = Inr s1"
    and o: "output_side s1 = Inr s2"
    and e: "s' = s2\<lparr>dut := eval M (dut s2), cycle_count := cycle_count s2 + 1\<rparr>"
    by (rule loop_body_split)
  from output_side_frame [OF o] e
  have "ipins (dut s') = ipins (dut s1)" "pixel_count s' = pixel_count s1"
    "input_active s' = input_active s1"
    by simp_all
  with i show ?thesis by (rule that)
qed

lemma offer_inv_init: "offer_inv inp (main_init d)"
  by (simp add: offer_inv_def main_init_def IMAGE_WIDTH_def IMAGE_HEIGHT_def)

lemma offer_inv_offered:
  assumes "0 \<le> pixel_count s" "pixel_count s < IMAGE_WIDTH * IMAGE_HEIGHT"
  shows "offer_inv inp (offered inp s)"
  using assms by (simp add: offer_inv_def offered_def)

lemma offer_inv_input_side:
  assumes "offer_inv inp s" "input_side inp s = Inr s1"
  shows "offer_inv inp s1"
proof -
  have "s1 = s \<or> s1 = retired s \<or>
    (s1 = offered inp s \<and> 0 \<le> pixel_count s \<and> pixel_count s < IMAGE_WIDTH * IMAGE_HEIGHT)"
    using assms(2) unfolding input_side_cases by (auto split: if_splits)
  moreover have "offer_inv inp (retired s)"
    using assms(1) by (simp add: offer_inv_def retired_def)
  ultimately show ?thesis
    using assms(1) offer_inv_offered by blast
qed

lemma offer_inv_toggle: "offer_inv inp (toggle_clocks s) = offer_inv inp s"
  by (simp add: offer_inv_def)

lemma offer_inv_loop_body:
  assumes "offer_inv inp s" "loop_body M inp s = Inr s'"
  shows "offer_inv inp s'"
proof -
  from assms(2) obtain s1 where i: "input_side inp (toggle_clocks s) = Inr s1"
    and eq: "ipins (dut s') = ipins (dut s1)" "pixel_count s' = pixel_count s1"
    "input_active s' = input_active s1"
    by (rule loop_body_producer)
  from assms(1) have "offer_inv inp (toggle_clocks s)"
    by (simp add: offer_inv_toggle)
  from offer_inv_input_side [OF this i] have "offer_inv inp s1" .
  then show ?thesis
    by (simp add: offer_inv_def eq)
qed

lemma offer_inv_run:
  assumes "loop_steps k M inp (main_init d) = Inr s"
  shows "offer_inv inp s"
  using offer_inv_init offer_inv_loop_body assms
  by (rule loop_steps_invariant [where P = "offer_inv inp"])

lemma zero_image_nth: "n < 921600 \<Longrightarrow> zero_image ! n = 0"
  by (simp add: zero_image_def IMAGE_WIDTH_def IMAGE_HEIGHT_def)

lemma length_zero_image_num: "length zero_image = 921600"
  by (simp add: zero_image_def IMAGE_WIDTH_def IMAGE_HEIGHT_def)

lemma stall_first_step:
  "\<exists>s. loop_body stall_model zero_image (main_init idle_top) = Inr s \<and>
     s_axis_tvalid (ipins (dut s)) \<and> \<not> s_axis_tready (opins (dut s)) \<and>
     \<not> m_axis_tvalid (opins (dut s)) \<and>
     \<not> s_axis_tlast (ipins (dut s)) \<and> s_axis_tuser (ipins (dut s)) = 0 \<and>
     s_axis_tdata (ipins (dut s)) = 0 \<and>
     pixel_count s = 1 \<and> cycle_count s = 1 \<and> \<not> input_active s"
  by (simp add: loop_body_def input_side_cases output_side_def offered_def main_init_def
      idle_top_def idle_in_def idle_out_def stall_model_def eval_def length_zero_image_num
      zero_image_nth pack_rgb_def IMAGE_WIDTH_def IMAGE_HEIGHT_def)

lemma loop_steps_stuck: "\<not> loop_cond s \<Longrightarrow> loop_steps j M inp s = Inr s"
  by (cases j) simp_all

lemma loop_steps_add:
  "loop_steps (k + j) M inp s =
     (case loop_steps k M inp s of Inl e \<Rightarrow> Inl e | Inr t \<Rightarrow> loop_steps j M inp t)"
proof (induction k arbitrary: s)
  case 0
  show ?case by simp
next
  case (Suc k)
  show ?case
  proof (cases "loop_cond s")
    case False
    then show ?thesis by (simp add: loop_steps_stuck)
  next
    case True
    then show ?thesis
      by (cases "loop_body M inp s") (simp_all add: Suc.IH)
  qed
qed

lemma loop_steps_exit:
  assumes "loop_steps k M inp s0 = Inr s" "\<not> loop_cond s"
  shows "main_loop M inp s0 = Inr s"
  using assms
proof (induction k arbitrary: s0)
  case 0
  then show ?case by simp
next
  case (Suc k)
  show ?case
  proof (cases "loop_cond s0")
    case False
    with Suc.prems show ?thesis by simp
  next
    case True
    with Suc.prems obtain s1 where b: "loop_body M inp s0 = Inr s1"
      and r: "loop_steps k M inp s1 = Inr s"
      by (auto split: sum.splits)
    from Suc.IH [OF r Suc.prems(2)] True b show ?thesis by simp
  qed
qed

lemma main_loop_invariant:
  assumes "P s0"
    and "\<And>s. P s \<Longrightarrow> loop_cond s \<Longrightarrow> \<exists>s'. loop_body M inp s = Inr s' \<and> P s'"
  shows "\<exists>s. main_loop M inp s0 = Inr s \<and> P s \<and> \<not> loop_cond s"
  using assms
proof (induction M inp s0 rule: main_loop.induct)
  case (1 M inp s)
  show ?case
  proof (cases "loop_cond s")
    case False
    with "1.prems"(1) show ?thesis by simp
  next
    case True
    from "1.prems"(2) [OF "1.prems"(1) True]
    obtain s' where b: "loop_body M inp s = Inr s'" and p: "P s'"
      by blast
    from "1.IH" [OF True b p "1.prems"(2)] True b show ?thesis by simp
  qed
qed

lemma loop_body_cycle_count:
  assumes "loop_body M inp s = Inr s'"
  shows "cycle_count s' = cycle_count s + 1"
proof -
  from assms obtain s1 s2 where "input_side inp (toggle_clocks s) = Inr s1"
    "output_side s1 = Inr s2"
    "s' = s2\<lparr>dut := eval M (dut s2), cycle_count := cycle_count s2 + 1\<rparr>"
    by (rule loop_body_split)
  with input_side_frame [of inp "toggle_clocks s" s1] output_side_frame [of s1 s2]
  show ?thesis by simp
qed

lemma main_loop_cycles:
  "main_loop M inp s0 = Inr s \<Longrightarrow> cycle_count s = cycle_count s0 + int (loop_iters M inp s0)"
proof (induction M inp s0 rule: main_loop.induct)
  case (1 M inp s0)
  show ?case
  proof (cases "loop_cond s0")
    case False
    with "1.prems" show ?thesis by simp
  next
    case True
    show ?thesis
    proof (cases "loop_body M inp s0")
      case (Inl e)
      with True "1.prems" show ?thesis by simp
    next
      case (Inr s1)
      with True "1.prems" have r: "main_loop M inp s1 = Inr s" by simp
      from "1.IH" [OF True Inr r] loop_body_cycle_count [OF Inr] True Inr
      show ?thesis by simp
    qed
  qed
qed

lemma loop_steps_running:
  assumes "k < loop_iters M inp s0"
  shows "\<exists>s. loop_steps k M inp s0 = Inr s \<and> loop_cond s \<and> cycle_count s = cycle_count s0 + int k"
  using assms
proof (induction k arbitrary: s0)
  case 0
  then have "loop_cond s0"
    by (cases "loop_cond s0") simp_all
  then show ?case by simp
next
  case (Suc k)
  then have c: "loop_cond s0"
    by (cases "loop_cond s0") simp_all
  with Suc.prems obtain s1 where b: "loop_body M inp s0 = Inr s1"
    by (cases "loop_body M inp s0") simp_all
  with c Suc.prems have "k < loop_iters M inp s1" by simp
  from Suc.IH [OF this] obtain s where "loop_steps k M inp s1 = Inr s" "loop_cond s"
    "cycle_count s = cycle_count s1 + int k"
    by blast
  moreover have "cycle_count s1 = cycle_count s0 + 1"
    using b by (rule loop_body_cycle_count)
  ultimately show ?case
    using c b by simp
qed

lemma loop_body_quiet:
  assumes "\<not> m_axis_tvalid (opins (dut s))" "input_side inp (toggle_clocks s) = Inr s1"
  shows "loop_body M inp s = Inr (s1\<lparr>dut := eval M (dut s1), cycle_count := cycle_count s1 + 1\<rparr>)"
proof -
  from input_side_frame [OF assms(2)] assms(1) have "\<not> m_axis_tvalid (opins (dut s1))"
    by simp
  then have "output_side s1 = Inr s1"
    by (simp add: output_side_idle)
  with assms(2) show ?thesis
    by (simp add: loop_body_def)
qed

lemma sink_inv_init: "sink_inv (main_init idle_top)"
  by (simp add: sink_inv_def main_init_def idle_top_def idle_in_def idle_out_def
      IMAGE_WIDTH_def IMAGE_HEIGHT_def)

lemma eval_sink:
  "opins (eval sink_model d) = idle_out\<lparr>s_axi_awready := True, s_axi_wready := True, s_axis_tready := True\<rparr>"
  by (simp add: eval_def sink_model_def)

lemma sink_inv_step:
  assumes "int (length inp) = IMAGE_WIDTH * IMAGE_HEIGHT * 3" "sink_inv s" "loop_cond s"
  shows "\<exists>s'. loop_body sink_model inp s = Inr s' \<and> sink_inv s'"
proof -
  from assms(2) have q: "\<not> m_axis_tvalid (opins (dut s))"
    by (simp add: sink_inv_def)
  from assms(3) have c: "pixel_count s < IMAGE_WIDTH * IMAGE_HEIGHT"
    by (simp add: loop_cond_def)
  show ?thesis
  proof (cases "input_active s")
    case True
    with assms(2) have v: "\<not> s_axis_tvalid (ipins (dut s))" and p: "0 \<le> pixel_count s"
      and cy: "cycle_count s = 2 * pixel_count s"
      and o: "\<not> output_active s" "output_image s = zero_image"
      by (simp_all add: sink_inv_def)
    have "pixel_count s * 3 + 2 < int (length inp)"
      using c assms(1) by simp
    then have i: "input_side inp (toggle_clocks s) = Inr (offered inp (toggle_clocks s))"
      using True v p c by (simp add: input_side_cases)
    from loop_body_quiet [OF q i]
    have b: "loop_body sink_model inp s =
      Inr ((offered inp (toggle_clocks s))\<lparr>dut := eval sink_model (dut (offered inp (toggle_clocks s))),
            cycle_count := cycle_count (offered inp (toggle_clocks s)) + 1\<rparr>)" .
    have "sink_inv ((offered inp (toggle_clocks s))\<lparr>dut := eval sink_model (dut (offered inp (toggle_clocks s))),
            cycle_count := cycle_count (offered inp (toggle_clocks s)) + 1\<rparr>)"
      using p c cy o by (simp add: sink_inv_def eval_sink offered_def idle_out_def)
    with b show ?thesis by simp
  next
    case False
    with assms(2) have v: "s_axis_tvalid (ipins (dut s))" and r: "s_axis_tready (opins (dut s))"
      and p: "0 \<le> pixel_count s"
      and cy: "cycle_count s + 1 = 2 * pixel_count s"
      and o: "\<not> output_active s" "output_image s = zero_image"
      by (simp_all add: sink_inv_def)
    have i: "input_side inp (toggle_clocks s) = Inr (retired (toggle_clocks s))"
      using False v r by (simp add: input_side_cases)
    from loop_body_quiet [OF q i]
    have b: "loop_body sink_model inp s =
      Inr ((retired (toggle_clocks s))\<lparr>dut := eval sink_model (dut (retired (toggle_clocks s))),
            cycle_count := cycle_count (retired (toggle_clocks s)) + 1\<rparr>)" .
    have "sink_inv ((retired (toggle_clocks s))\<lparr>dut := eval sink_model (dut (retired (toggle_clocks s))),
            cycle_count := cycle_count (retired (toggle_clocks s)) + 1\<rparr>)"
      using p c cy o by (simp add: sink_inv_def eval_sink retired_def idle_out_def)
    with b show ?thesis by simp
  qed
qed

lemma sink_run:
  assumes "int (length inp) = IMAGE_WIDTH * IMAGE_HEIGHT * 3"
  shows "\<exists>s. main_loop sink_model inp (main_init idle_top) = Inr s \<and>
           pixel_count s = IMAGE_WIDTH * IMAGE_HEIGHT \<and> cycle_count s = 614399 \<and>
           s_axis_tvalid (ipins (dut s)) \<and> \<not> output_active s \<and> output_image s = zero_image"
proof -
  from main_loop_invariant [of sink_inv, OF sink_inv_init sink_inv_step [OF assms]]
  obtain s where m: "main_loop sink_model inp (main_init idle_top) = Inr s"
    and i: "sink_inv s" and e: "\<not> loop_cond s"
    by blast
  have na: "\<not> input_active s"
  proof
    assume "input_active s"
    with i have "cycle_count s = 2 * pixel_count s" "pixel_count s < IMAGE_WIDTH * IMAGE_HEIGHT"
      by (simp_all add: sink_inv_def)
    with e show False
      by (simp add: loop_cond_def IMAGE_WIDTH_def IMAGE_HEIGHT_def)
  qed
  with i have f: "cycle_count s + 1 = 2 * pixel_count s" "pixel_count s \<le> IMAGE_WIDTH * IMAGE_HEIGHT"
    "s_axis_tvalid (ipins (dut s))" "\<not> output_active s" "output_image s = zero_image"
    by (simp_all add: sink_inv_def)
  with e have "pixel_count s = IMAGE_WIDTH * IMAGE_HEIGHT"
    by (simp add: loop_cond_def IMAGE_WIDTH_def IMAGE_HEIGHT_def)
  with f m show ?thesis
    by (intro exI [of _ s]) (simp add: IMAGE_WIDTH_def IMAGE_HEIGHT_def)
qed

lemma sink_quiet:
  assumes "loop_steps k sink_model inp (main_init idle_top) = Inr t"
  shows "\<not> m_axis_tvalid (opins (dut t))"
proof -
  have a: "\<not> m_axis_tvalid (opins (dut (main_init idle_top)))"
    by (simp add: main_init_def idle_top_def idle_out_def)
  have b: "\<not> m_axis_tvalid (opins (dut s'))"
    if "loop_body sink_model inp s = Inr s'" for s s' :: "(16, unit) sim"
    using that by (elim loop_body_split) (simp add: eval_sink idle_out_def)
  from a b assms show ?thesis
    by (rule loop_steps_invariant [where P = "\<lambda>s. \<not> m_axis_tvalid (opins (dut s))"])
qed

lemma input_image_size: "int (length (projr input_image)) = IMAGE_WIDTH * IMAGE_HEIGHT * 3"
proof -
  from generate_test_pattern_ok obtain img where i: "input_image = Inr img"
    and l: "length img = nat (IMAGE_WIDTH * IMAGE_HEIGHT * 3)"
    by blast
  have "projr input_image = img"
    by (simp add: i)
  with l show ?thesis
    by (simp add: IMAGE_WIDTH_def IMAGE_HEIGHT_def)
qed

lemma main_loop_exit:
  "main_loop M inp s0 = Inr s \<Longrightarrow> \<not> loop_cond s"
proof (induction M inp s0 rule: main_loop.induct)
  case (1 M inp s0)
  show ?case
  proof (cases "loop_cond s0")
    case False
    with "1.prems" show ?thesis by simp
  next
    case True
    show ?thesis
    proof (cases "loop_body M inp s0")
      case (Inl e)
      with True "1.prems" show ?thesis by simp
    next
      case (Inr s1)
      with True "1.prems" have r: "main_loop M inp s1 = Inr s" by simp
      from "1.IH" [OF True Inr r] show ?thesis .
    qed
  qed
qed

lemma loop_iters_pos: "loop_cond s \<Longrightarrow> 0 < loop_iters M inp s"
  by (cases "loop_body M inp s") simp_all

lemma loop_cond_init: "loop_cond (main_init d)"
  by (simp add: loop_cond_def main_init_def IMAGE_WIDTH_def IMAGE_HEIGHT_def)

lemma input_side_done:
  assumes "IMAGE_WIDTH * IMAGE_HEIGHT \<le> pixel_count s"
  shows "input_side inp s =
     Inr (if s_axis_tvalid (ipins (dut s)) \<and> s_axis_tready (opins (dut s)) then retired s else s)"
  using assms by (simp add: input_side_cases)

lemma input_side_ok:
  assumes "0 \<le> pixel_count s" "pixel_count s * 3 + 2 < int (length inp)"
  shows "\<exists>s1. input_side inp s = Inr s1"
  using assms by (simp add: input_side_cases)

lemma consumer_ok:
  fixes s :: "('u::len, 'd) sim"
  assumes "int (length (output_image s)) = IMAGE_WIDTH * IMAGE_HEIGHT * 3"
  shows "\<exists>s'. output_side s = Inr s' \<and> length (output_image s') = length (output_image s)"
proof (cases "m_axis_tvalid (opins (dut s)) \<and> m_axis_tready (ipins (dut s))")
  case True
  with output_side_accept [OF _ _ assms] show ?thesis by simp
next
  case False
  then show ?thesis by (simp add: output_side_idle)
qed

lemma out_pixel_not_3:
  fixes u :: "16 word"
  assumes "uint u < 640"
  shows "out_pixel_of u \<noteq> 3"
proof -
  have "0 \<le> uint u" by simp
  have "out_pixel_of u = (uint u * 640 + (uint u + 1) mod 640) mod 307200"
    by (simp add: out_pixel_of_def c_mod_nonneg IMAGE_WIDTH_def IMAGE_HEIGHT_def)
  moreover have "(a * 640 + (a + 1) mod 640) mod 307200 \<noteq> 3" if a: "0 \<le> a" "a < 640" for a :: int
  proof
    assume e: "(a * 640 + (a + 1) mod 640) mod 307200 = 3"
    have "(a * 640 + (a + 1) mod 640) mod 307200 mod 640 = (a * 640 + (a + 1) mod 640) mod 640"
      by (rule mod_mod_cancel) simp
    with e have "(a * 640 + (a + 1) mod 640) mod 640 = 3"
      by simp
    then have m: "(a + 1) mod 640 = 3"
      by simp
    have "a = 2"
    proof (cases "a = 639")
      case True
      with m show ?thesis by simp
    next
      case False
      with a have "(a + 1) mod 640 = a + 1" by simp
      with m show ?thesis by simp
    qed
    with e show False by simp
  qed
  ultimately show ?thesis
    using assms by simp
qed

lemma eval_identity:
  "opins (eval identity_model d) =
     \<lparr>s_axi_awready = True, s_axi_wready = True, s_axis_tready = m_axis_tready (ipins d),
      m_axis_tvalid = s_axis_tvalid (ipins d), m_axis_tdata = s_axis_tdata (ipins d),
      m_axis_tuser = s_axis_tuser (ipins d)\<rparr>"
  by (simp add: eval_def identity_model_def)

lemma input_side_column:
  fixes s :: "(16, 'd) sim"
  assumes "input_side inp s = Inr s1" "uint (s_axis_tuser (ipins (dut s))) < 640"
  shows "uint (s_axis_tuser (ipins (dut s1))) < 640"
proof -
  have "s1 = s \<or> s1 = retired s \<or> s1 = offered inp s"
    using assms(1) unfolding input_side_cases by (auto split: if_splits)
  moreover have "uint (word_of_int (pixel_count s mod IMAGE_WIDTH) :: 16 word) < 640"
    by (simp add: uint_word_of_int IMAGE_WIDTH_def)
  ultimately show ?thesis
    using assms(2) by (auto simp: retired_def offered_def)
qed

lemma output_side_keeps_byte9:
  fixes s :: "(16, 'd) sim"
  assumes "int (length (output_image s)) = IMAGE_WIDTH * IMAGE_HEIGHT * 3"
    and "uint (m_axis_tuser (opins (dut s))) < 640"
  shows "\<exists>s'. output_side s = Inr s' \<and> dut s' = dut s \<and>
           length (output_image s') = length (output_image s) \<and>
           output_image s' ! 9 = output_image s ! 9"
proof (cases "m_axis_tvalid (opins (dut s)) \<and> m_axis_tready (ipins (dut s))")
  case False
  then show ?thesis by (simp add: output_side_idle)
next
  case True
  let ?p = "out_pixel_of (m_axis_tuser (opins (dut s)))"
  have "0 \<le> ?p" "?p \<noteq> 3"
    using out_pixel_range [of "m_axis_tuser (opins (dut s))"] out_pixel_not_3 [OF assms(2)]
    by simp_all
  then have "nat (?p * 3) \<noteq> 9" "nat (?p * 3) + 1 \<noteq> 9" "nat (?p * 3) + 2 \<noteq> 9"
    by linarith+
  with output_side_accept [OF _ _ assms(1)] True show ?thesis
    by simp
qed

lemma wire_inv_init: "wire_inv inp (main_init idle_top)"
  using offer_inv_init [of inp idle_top] zero_image_size
  by (simp add: wire_inv_def main_init_def idle_top_def idle_out_def zero_image_nth)

lemma wire_inv_step:
  assumes "int (length inp) = IMAGE_WIDTH * IMAGE_HEIGHT * 3" "wire_inv inp s" "loop_cond s"
  shows "\<exists>s'. loop_body identity_model inp s = Inr s' \<and> wire_inv inp s'"
proof -
  from assms(2,3) have p: "0 \<le> pixel_count s" "pixel_count s < IMAGE_WIDTH * IMAGE_HEIGHT"
    by (simp_all add: wire_inv_def offer_inv_def loop_cond_def)
  with assms(1) have "\<exists>s1. input_side inp (toggle_clocks s) = Inr s1"
    by (intro input_side_ok) simp_all
  then obtain s1 where i: "input_side inp (toggle_clocks s) = Inr s1" ..
  from assms(2) have "uint (s_axis_tuser (ipins (dut (toggle_clocks s)))) < 640"
    by (simp add: wire_inv_def)
  from input_side_column [OF i this] have c1: "uint (s_axis_tuser (ipins (dut s1))) < 640" .
  from input_side_frame [OF i] assms(2)
  have l1: "int (length (output_image s1)) = IMAGE_WIDTH * IMAGE_HEIGHT * 3"
    and u1: "uint (m_axis_tuser (opins (dut s1))) < 640"
    and z1: "output_image s1 ! 9 = 0"
    by (simp_all add: wire_inv_def)
  from output_side_keeps_byte9 [OF l1 u1] obtain s2 where o: "output_side s1 = Inr s2"
    and d2: "dut s2 = dut s1" and l2: "length (output_image s2) = length (output_image s1)"
    and z2: "output_image s2 ! 9 = output_image s1 ! 9"
    by blast
  let ?s' = "s2\<lparr>dut := eval identity_model (dut s2), cycle_count := cycle_count s2 + 1\<rparr>"
  have b: "loop_body identity_model inp s = Inr ?s'"
    using i o by (simp add: loop_body_def)
  from assms(2) have "offer_inv inp s" by (simp add: wire_inv_def)
  from offer_inv_loop_body [OF this b] have "offer_inv inp ?s'" .
  then have "wire_inv inp ?s'"
    using l1 l2 z1 z2 c1 d2 by (simp add: wire_inv_def eval_identity)
  with b show ?thesis by blast
qed

lemma funpow_eval_ipins [simp]: "ipins ((eval M ^^ n) d) = ipins d"
  by (induction n) simp_all

lemma wait_handshake_returns:
  assumes "write_ready ((eval M ^^ n) d)" "\<forall>m<n. \<not> write_ready ((eval M ^^ m) d)"
  shows "wait_handshake M d = Some ((eval M ^^ n) d)"
  using assms
proof (induction n arbitrary: d)
  case 0
  then show ?case
    by (subst wait_handshake.simps) simp
next
  case (Suc n)
  from Suc.prems(2) have nr: "\<not> write_ready d"
    by (elim allE [of _ 0]) simp
  have r: "write_ready ((eval M ^^ n) (eval M d))"
    using Suc.prems(1) by (simp add: funpow_swap1)
  have b: "\<forall>m<n. \<not> write_ready ((eval M ^^ m) (eval M d))"
  proof (intro allI impI)
    fix m assume "m < n"
    then have "Suc m < Suc n" by simp
    with Suc.prems(2) have "\<not> write_ready ((eval M ^^ Suc m) d)" by blast
    then show "\<not> write_ready ((eval M ^^ m) (eval M d))"
      by (simp add: funpow_swap1)
  qed
  from Suc.IH [OF r b] have "wait_handshake M (eval M d) = Some ((eval M ^^ Suc n) d)"
    by (simp add: funpow_swap1)
  with nr show ?case
    by (subst wait_handshake.simps) simp
qed

lemma wait_handshake_Some:
  assumes "wait_handshake M d = Some d'"
  shows "\<exists>n. d' = (eval M ^^ n) d \<and> write_ready ((eval M ^^ n) d) \<and>
           (\<forall>m<n. \<not> write_ready ((eval M ^^ m) d))"
  using assms
proof (induction rule: wait_handshake.raw_induct [rotated 1, consumes 1])
  case (1 wait M d d')
  show ?case
  proof (cases "write_ready d")
    case True
    with "1.hyps" have "d' = d" by simp
    with True show ?thesis
      by (intro exI [of _ 0]) simp
  next
    case False
    with "1.hyps" have "wait M (eval M d) = Some d'" by simp
    from "1.IH" [OF this] obtain n where n: "d' = (eval M ^^ n) (eval M d)"
      "write_ready ((eval M ^^ n) (eval M d))"
      "\<forall>m<n. \<not> write_ready ((eval M ^^ m) (eval M d))"
      by blast
    have "\<not> write_ready ((eval M ^^ m) d)" if "m < Suc n" for m
    proof (cases m)
      case 0
      with False show ?thesis by simp
    next
      case (Suc k)
      with that n(3) show ?thesis by (simp add: funpow_swap1)
    qed
    with n(1,2) show ?thesis
      by (intro exI [of _ "Suc n"]) (simp add: funpow_swap1)
  qed
qed

lemma wait_handshake_never:
  assumes "\<forall>n. \<not> write_ready ((eval M ^^ n) d)"
  shows "wait_handshake M d = None"
proof (cases "wait_handshake M d")
  case None
  then show ?thesis .
next
  case (Some d')
  from wait_handshake_Some [OF this] assms show ?thesis by blast
qed

lemma ipins_drive_write:
  "ipins (drive_write d k00) =
     (ipins d)\<lparr>s_axi_awaddr := 0, s_axi_awvalid := True, s_axi_wdata := ucast k00,
               s_axi_wvalid := True, s_axi_wstrb := 0xF\<rparr>"
  by (simp add: drive_write_def)

lemma slow_write_evals:
  "\<not> write_ready (drive_write counting_top 7)"
  "\<not> write_ready (eval slow_write_model (drive_write counting_top 7))"
  "write_ready (eval slow_write_model (eval slow_write_model (drive_write counting_top 7)))"
  by (simp_all add: write_ready_def drive_write_def counting_top_def eval_def
      slow_write_model_def idle_out_def)

section \<open>The claims\<close>

subsection \<open>C1: an identity DUT does not give back the input image\<close>

text \<open>
  Claim C1 says that with a DUT that passes every input transfer through unchanged, the
  loop leaves the input image in the output buffer. The code does not: the consumer
  stores a transfer at pixel \<open>(tuser * W + (tuser + 1) mod W) mod (W * H)\<close>, where \<open>tuser\<close>
  is the column of the transfer alone. With the wire \<open>identity_model\<close> and the image of the
  frame source, pixel 3 is never written: byte 9 of the output is still \<open>0\<close> at the exit
  of the loop, and byte 9 of the input is \<open>1\<close>.
\<close>

theorem identity_run_differs:
  "\<exists>img s. input_image = Inr img \<and>
     main_loop identity_model img (main_init idle_top) = Inr s \<and>
     uint (img ! 9) = 1 \<and> output_image s ! 9 = 0 \<and> output_image s \<noteq> img"
proof -
  from generate_test_pattern_ok obtain img where i: "input_image = Inr img"
    and l: "length img = nat (IMAGE_WIDTH * IMAGE_HEIGHT * 3)"
    and g: "\<forall>y x. 0 \<le> y \<and> y < IMAGE_HEIGHT \<and> 0 \<le> x \<and> x < IMAGE_WIDTH \<longrightarrow> gradient_at img y x"
    by blast
  have "gradient_at img 0 3"
    using g by (simp add: IMAGE_WIDTH_def IMAGE_HEIGHT_def)
  then have r: "uint (img ! 9) = 1"
    by (simp add: gradient_at_def IMAGE_WIDTH_def)
  have l': "int (length img) = IMAGE_WIDTH * IMAGE_HEIGHT * 3"
    using l by (simp add: IMAGE_WIDTH_def IMAGE_HEIGHT_def)
  from main_loop_invariant [of "wire_inv img", OF wire_inv_init wire_inv_step [OF l']]
  obtain s where m: "main_loop identity_model img (main_init idle_top) = Inr s"
    and w: "wire_inv img s"
    by blast
  from w have z: "output_image s ! 9 = 0"
    by (simp add: wire_inv_def)
  have "output_image s \<noteq> img"
  proof
    assume "output_image s = img"
    with z r show False by simp
  qed
  with i m r z show ?thesis by blast
qed

subsection \<open>C2: when the loop ends\<close>

text \<open>
  Claim C2, as amended. The loop runs \<open>loop_iters\<close> iterations. Before each of them the
  counter of the producer, \<open>pixel_count\<close> (the number of input pixels offered), is below
  \<open>W * H\<close> and the cycle counter is below \<open>1000000\<close>; at the exit one of the two bounds
  is reached. The cycle counter counts the iterations.
\<close>

theorem main_loop_exit_condition:
  fixes s0 :: "('u::len, 'd) sim"
  shows "main_loop M inp s0 = loop_steps (loop_iters M inp s0) M inp s0 \<and>
     (\<forall>k<loop_iters M inp s0. \<exists>s. loop_steps k M inp s0 = Inr s \<and>
          cycle_count s = cycle_count s0 + int k \<and>
          pixel_count s < IMAGE_WIDTH * IMAGE_HEIGHT \<and> cycle_count s < 1000000) \<and>
     (\<forall>s. main_loop M inp s0 = Inr s \<longrightarrow>
          cycle_count s = cycle_count s0 + int (loop_iters M inp s0) \<and>
          (IMAGE_WIDTH * IMAGE_HEIGHT \<le> pixel_count s \<or> 1000000 \<le> cycle_count s))"
proof -
  have a: "main_loop M inp s0 = loop_steps (loop_iters M inp s0) M inp s0"
    by (rule main_loop_steps)
  have b: "\<exists>s. loop_steps k M inp s0 = Inr s \<and> cycle_count s = cycle_count s0 + int k \<and>
          pixel_count s < IMAGE_WIDTH * IMAGE_HEIGHT \<and> cycle_count s < 1000000"
    if "k < loop_iters M inp s0" for k
    using loop_steps_running [OF that] by (auto simp: loop_cond_def)
  have c: "cycle_count s = cycle_count s0 + int (loop_iters M inp s0) \<and>
          (IMAGE_WIDTH * IMAGE_HEIGHT \<le> pixel_count s \<or> 1000000 \<le> cycle_count s)"
    if m: "main_loop M inp s0 = Inr s" for s
    using main_loop_cycles [OF m] main_loop_exit [OF m] by (auto simp: loop_cond_def)
  from a b c show ?thesis by blast
qed

theorem main_loop_exit_condition_witness:
  "0 < loop_iters sink_model zero_image (main_init idle_top) \<and>
   (\<exists>s. loop_steps 0 sink_model zero_image (main_init idle_top) = Inr s \<and>
        cycle_count s = 0 \<and> pixel_count s < IMAGE_WIDTH * IMAGE_HEIGHT \<and> cycle_count s < 1000000) \<and>
   (\<exists>s. main_loop sink_model zero_image (main_init idle_top) = Inr s \<and>
        cycle_count s = int (loop_iters sink_model zero_image (main_init idle_top)) \<and>
        IMAGE_WIDTH * IMAGE_HEIGHT \<le> pixel_count s)"
proof -
  have p: "0 < loop_iters sink_model zero_image (main_init idle_top)"
    using loop_cond_init by (rule loop_iters_pos)
  from sink_run [OF zero_image_size] obtain s where
    m: "main_loop sink_model zero_image (main_init idle_top) = Inr s"
    and q: "pixel_count s = IMAGE_WIDTH * IMAGE_HEIGHT"
    by blast
  have z: "cycle_count (main_init idle_top) = 0"
    by (simp add: main_init_def)
  from main_loop_exit_condition [of sink_model zero_image "main_init idle_top"] p m z q
  show ?thesis
    by auto
qed

text \<open>
  Claim C2 as stated fails: the loop does not wait for output pixels. With a DUT that
  accepts every input and never produces output, the loop ends after 614399 cycles, all
  pixels offered, while the consumer has accepted no transfer (\<open>output_active\<close> is still
  false and the output buffer is untouched).
\<close>

theorem loop_exit_without_output:
  "\<not> isl (main_loop sink_model (projr input_image) (main_init idle_top)) \<and>
   pixel_count (projr (main_loop sink_model (projr input_image) (main_init idle_top)))
     = IMAGE_WIDTH * IMAGE_HEIGHT \<and>
   cycle_count (projr (main_loop sink_model (projr input_image) (main_init idle_top))) < 1000000 \<and>
   \<not> output_active (projr (main_loop sink_model (projr input_image) (main_init idle_top))) \<and>
   output_image (projr (main_loop sink_model (projr input_image) (main_init idle_top)))
     = zero_image"
proof -
  from sink_run [OF input_image_size] obtain s where
    "main_loop sink_model (projr input_image) (main_init idle_top) = Inr s"
    "pixel_count s = IMAGE_WIDTH * IMAGE_HEIGHT" "cycle_count s = 614399"
    "\<not> output_active s" "output_image s = zero_image"
    by blast
  then show ?thesis by simp
qed

subsection \<open>C3: the consumer stays inside the output buffer\<close>

text \<open>
  Claim C3. For every value of \<open>m_axis_tuser\<close> and \<open>m_axis_tdata\<close>, the output side runs
  without an access outside the output buffer of \<open>W * H * 3\<close> bytes: it returns a state,
  the buffer keeps its length, and every byte that changes belongs to one pixel \<open>p\<close> with
  \<open>0 \<le> p < W * H\<close>. A destination index of \<open>W * H\<close> or more makes the guarded stores
  leave the buffer as it is.
\<close>

theorem consumer_writes_in_bounds:
  fixes s :: "('u::len, 'd) sim"
  assumes "int (length (output_image s)) = IMAGE_WIDTH * IMAGE_HEIGHT * 3"
  shows "\<exists>s' p. output_side s = Inr s' \<and>
           length (output_image s') = length (output_image s) \<and>
           0 \<le> p \<and> p < IMAGE_WIDTH * IMAGE_HEIGHT \<and>
           (\<forall>j. output_image s' ! j \<noteq> output_image s ! j \<longrightarrow> int j div 3 = p) \<and>
           (\<forall>img q r g b. IMAGE_WIDTH * IMAGE_HEIGHT \<le> q \<longrightarrow> store_pixel img q r g b = Inr img)"
proof (cases "m_axis_tvalid (opins (dut s)) \<and> m_axis_tready (ipins (dut s))")
  case False
  then have "output_side s = Inr s"
    by (rule output_side_idle)
  then show ?thesis
    by (intro exI [of _ s] exI [of _ 0]) (simp add: store_pixel_dropped IMAGE_WIDTH_def IMAGE_HEIGHT_def)
next
  case True
  let ?p = "out_pixel_of (m_axis_tuser (opins (dut s)))"
  let ?img = "(output_image s)
      [nat (?p * 3) := ucast (m_axis_tdata (opins (dut s)) AND 0xFF),
       nat (?p * 3) + 1 := ucast (drop_bit 8 (m_axis_tdata (opins (dut s))) AND 0xFF),
       nat (?p * 3) + 2 := ucast (drop_bit 16 (m_axis_tdata (opins (dut s))) AND 0xFF)]"
  have run: "output_side s = Inr (s\<lparr>output_image := ?img, output_active := True\<rparr>)"
    using True assms by (intro output_side_accept) simp_all
  have p: "0 \<le> ?p" "?p < IMAGE_WIDTH * IMAGE_HEIGHT"
    using out_pixel_range [of "m_axis_tuser (opins (dut s))"] by simp_all
  have ch: "int j div 3 = ?p" if "?img ! j \<noteq> output_image s ! j" for j
  proof -
    from update3_changed [OF that]
    have "j = nat (?p * 3) \<or> j = nat (?p * 3) + 1 \<or> j = nat (?p * 3) + 2" .
    with p(1) show ?thesis by auto
  qed
  show ?thesis
    using run p ch
    by (intro exI [of _ "s\<lparr>output_image := ?img, output_active := True\<rparr>"] exI [of _ ?p])
      (simp add: store_pixel_dropped)
qed

theorem consumer_writes_in_bounds_witness:
  "int (length (output_image (main_init offering_top))) = IMAGE_WIDTH * IMAGE_HEIGHT * 3 \<and>
   (\<exists>s'. output_side (main_init offering_top) = Inr s' \<and>
      length (output_image s') = length (output_image (main_init offering_top)) \<and>
      output_image s' ! 77883 \<noteq> output_image (main_init offering_top) ! 77883) \<and>
   (0::int) \<le> 77883 div 3 \<and> 77883 div 3 < IMAGE_WIDTH * IMAGE_HEIGHT \<and>
   IMAGE_WIDTH * IMAGE_HEIGHT \<le> 307200 \<and>
   store_pixel zero_image 307200 1 2 3 = Inr zero_image"
proof -
  have l: "int (length (output_image (main_init offering_top))) = IMAGE_WIDTH * IMAGE_HEIGHT * 3"
    by (simp add: main_init_offering zero_image_size)
  have q: "IMAGE_WIDTH * IMAGE_HEIGHT \<le> 307200"
    by (simp add: IMAGE_WIDTH_def IMAGE_HEIGHT_def)
  from consumer_writes_in_bounds [OF l] obtain s' p where
    o: "output_side (main_init offering_top) = Inr s'"
    and n: "length (output_image s') = length (output_image (main_init offering_top))"
    and r: "0 \<le> p" "p < IMAGE_WIDTH * IMAGE_HEIGHT"
    and c: "\<forall>j. output_image s' ! j \<noteq> output_image (main_init offering_top) ! j
               \<longrightarrow> int j div 3 = p"
    and d: "\<forall>img q r g b. IMAGE_WIDTH * IMAGE_HEIGHT \<le> q \<longrightarrow> store_pixel img q r g b = Inr img"
    by blast
  from output_side_accept [OF main_init_offering(2,3) l] o
  have "output_image s' = zero_image[77883 := 1, 77884 := 2, 77885 := 3]"
    by (simp add: main_init_offering out_pixel_1000)
  then have w: "output_image s' ! 77883 \<noteq> output_image (main_init offering_top) ! 77883"
    by (simp add: main_init_offering zero_image_nth length_zero_image_num)
  with c have "int 77883 div 3 = p"
    by blast
  with r have "(0::int) \<le> 77883 div 3" "77883 div 3 < IMAGE_WIDTH * IMAGE_HEIGHT"
    by simp_all
  with l o n w q d show ?thesis
    by simp
qed

subsection \<open>C4: the guard of the consumer never drops a transfer\<close>

text \<open>
  Claim C4. On every accepted output transfer the destination index computed on lines
  159 and 160 is already reduced modulo \<open>W * H\<close>: it lies in \<open>[0, W * H)\<close>, the guard of
  line 162 holds, and the three bytes of the transfer are stored at that pixel, inside
  the buffer. Metadata beyond the image wraps to a pixel of the image.
\<close>

theorem consumer_guard_always_true:
  fixes s :: "('u::len, 'd) sim"
  assumes "m_axis_tvalid (opins (dut s))" "m_axis_tready (ipins (dut s))"
    and "int (length (output_image s)) = IMAGE_WIDTH * IMAGE_HEIGHT * 3"
  shows "0 \<le> out_pixel_of (m_axis_tuser (opins (dut s))) \<and>
         out_pixel_of (m_axis_tuser (opins (dut s))) < IMAGE_WIDTH * IMAGE_HEIGHT \<and>
         output_side s =
           Inr (s\<lparr>output_image := (output_image s)
                    [nat (out_pixel_of (m_axis_tuser (opins (dut s))) * 3)
                       := ucast (m_axis_tdata (opins (dut s)) AND 0xFF),
                     nat (out_pixel_of (m_axis_tuser (opins (dut s))) * 3) + 1
                       := ucast (drop_bit 8 (m_axis_tdata (opins (dut s))) AND 0xFF),
                     nat (out_pixel_of (m_axis_tuser (opins (dut s))) * 3) + 2
                       := ucast (drop_bit 16 (m_axis_tdata (opins (dut s))) AND 0xFF)],
                  output_active := True\<rparr>) \<and>
         nat (out_pixel_of (m_axis_tuser (opins (dut s))) * 3) + 2 < length (output_image s)"
proof -
  have p: "0 \<le> out_pixel_of (m_axis_tuser (opins (dut s)))"
    "out_pixel_of (m_axis_tuser (opins (dut s))) < IMAGE_WIDTH * IMAGE_HEIGHT"
    using out_pixel_range [of "m_axis_tuser (opins (dut s))"] by simp_all
  then have "nat (out_pixel_of (m_axis_tuser (opins (dut s))) * 3) + 2 < length (output_image s)"
    using assms(3) by linarith
  with p output_side_accept [OF assms] show ?thesis
    by simp
qed

theorem consumer_guard_always_true_witness:
  "m_axis_tvalid (opins (dut (main_init offering_top))) \<and>
   m_axis_tready (ipins (dut (main_init offering_top))) \<and>
   int (length (output_image (main_init offering_top))) = IMAGE_WIDTH * IMAGE_HEIGHT * 3 \<and>
   m_axis_tuser (opins (dut (main_init offering_top))) = 1000 \<and>
   out_pixel_of (1000 :: 16 word) = 25961 \<and>
   output_side (main_init offering_top) =
     Inr ((main_init offering_top)
            \<lparr>output_image := zero_image[77883 := 1, 77884 := 2, 77885 := 3],
             output_active := True\<rparr>)"
proof -
  have l: "int (length (output_image (main_init offering_top))) = IMAGE_WIDTH * IMAGE_HEIGHT * 3"
    by (simp add: main_init_offering zero_image_size)
  from consumer_guard_always_true [OF main_init_offering(2,3) l]
  have "output_side (main_init offering_top) =
     Inr ((main_init offering_top)
            \<lparr>output_image := zero_image[77883 := 1, 77884 := 2, 77885 := 3],
             output_active := True\<rparr>)"
    by (simp add: main_init_offering out_pixel_1000)
  with l show ?thesis
    by (simp add: main_init_offering(2-4) out_pixel_1000)
qed

subsection \<open>C5: no new offer once all pixels are offered\<close>

text \<open>
  Claim C5, as amended. Once a state of the run has \<open>pixel_count = W * H\<close>, the harness makes
  no new offer. The loop makes no further iteration: every later state of the run is that
  state, and it is the state at the exit, so no pin is driven again (nothing after the
  loop writes a pin). A further step of the producer in that state would offer nothing
  either: it leaves the counter and the data and user pins alone, and \<open>s_axis_tvalid\<close> is
  high after it only if it was high and not accepted before.
\<close>

theorem producer_done_no_new_valid:
  fixes s :: "('u::len, 'd) sim"
  assumes "loop_steps k M inp (main_init d) = Inr s"
    and "IMAGE_WIDTH * IMAGE_HEIGHT \<le> pixel_count s"
  shows "(\<forall>j. k \<le> j \<longrightarrow> loop_steps j M inp (main_init d) = Inr s) \<and>
         main_loop M inp (main_init d) = Inr s \<and>
         (\<exists>s1. input_side inp s = Inr s1 \<and> pixel_count s1 = pixel_count s \<and>
              s_axis_tdata (ipins (dut s1)) = s_axis_tdata (ipins (dut s)) \<and>
              s_axis_tuser (ipins (dut s1)) = s_axis_tuser (ipins (dut s)) \<and>
              s_axis_tvalid (ipins (dut s1))
                = (s_axis_tvalid (ipins (dut s)) \<and> \<not> s_axis_tready (opins (dut s))))"
proof -
  from assms(2) have e: "\<not> loop_cond s"
    by (simp add: loop_cond_def)
  have a: "loop_steps j M inp (main_init d) = Inr s" if "k \<le> j" for j
  proof -
    from that obtain i where j: "j = k + i"
      using le_Suc_ex by blast
    show ?thesis
      unfolding j loop_steps_add using assms(1) e by (simp add: loop_steps_stuck)
  qed
  have b: "main_loop M inp (main_init d) = Inr s"
    using assms(1) e by (rule loop_steps_exit)
  have c: "\<exists>s1. input_side inp s = Inr s1 \<and> pixel_count s1 = pixel_count s \<and>
              s_axis_tdata (ipins (dut s1)) = s_axis_tdata (ipins (dut s)) \<and>
              s_axis_tuser (ipins (dut s1)) = s_axis_tuser (ipins (dut s)) \<and>
              s_axis_tvalid (ipins (dut s1))
                = (s_axis_tvalid (ipins (dut s)) \<and> \<not> s_axis_tready (opins (dut s)))"
    unfolding input_side_done [OF assms(2)] by (auto simp: retired_def)
  from a b c show ?thesis by blast
qed

theorem producer_done_no_new_valid_witness:
  "\<exists>s. loop_steps (loop_iters sink_model zero_image (main_init idle_top)) sink_model zero_image
          (main_init idle_top) = Inr s \<and>
     IMAGE_WIDTH * IMAGE_HEIGHT \<le> pixel_count s \<and>
     loop_steps (loop_iters sink_model zero_image (main_init idle_top) + 1) sink_model zero_image
          (main_init idle_top) = Inr s \<and>
     main_loop sink_model zero_image (main_init idle_top) = Inr s \<and>
     (\<exists>s1. input_side zero_image s = Inr s1 \<and> pixel_count s1 = pixel_count s \<and>
        s_axis_tvalid (ipins (dut s1))
          = (s_axis_tvalid (ipins (dut s)) \<and> \<not> s_axis_tready (opins (dut s))))"
proof -
  from sink_run [OF zero_image_size] obtain s where
    m: "main_loop sink_model zero_image (main_init idle_top) = Inr s"
    and p: "pixel_count s = IMAGE_WIDTH * IMAGE_HEIGHT"
    by blast
  from m have r: "loop_steps (loop_iters sink_model zero_image (main_init idle_top)) sink_model
      zero_image (main_init idle_top) = Inr s"
    by (simp only: main_loop_steps)
  have q: "IMAGE_WIDTH * IMAGE_HEIGHT \<le> pixel_count s"
    using p by simp
  from producer_done_no_new_valid [OF r q]
  have a: "\<forall>j. loop_iters sink_model zero_image (main_init idle_top) \<le> j \<longrightarrow>
      loop_steps j sink_model zero_image (main_init idle_top) = Inr s"
    and c: "\<exists>s1. input_side zero_image s = Inr s1 \<and> pixel_count s1 = pixel_count s \<and>
        s_axis_tvalid (ipins (dut s1))
          = (s_axis_tvalid (ipins (dut s)) \<and> \<not> s_axis_tready (opins (dut s)))"
    by blast+
  have "loop_iters sink_model zero_image (main_init idle_top)
      \<le> loop_iters sink_model zero_image (main_init idle_top) + 1"
    by (rule le_add1)
  with a have "loop_steps (loop_iters sink_model zero_image (main_init idle_top) + 1) sink_model
      zero_image (main_init idle_top) = Inr s"
    by blast
  with r q m c show ?thesis
    by blast
qed

text \<open>
  Claim C5 as stated fails: the counter reaches \<open>W * H\<close> in the branch that raises
  \<open>s_axis_tvalid\<close> for the last pixel (lines 129 and 140), and the loop ends with that
  iteration, so valid is not lowered again. With a DUT that accepts every input, on the
  image of the frame source, the loop ends with all pixels offered and \<open>s_axis_tvalid\<close>
  still high.
\<close>

theorem valid_high_at_loop_exit:
  "\<not> isl (main_loop sink_model (projr input_image) (main_init idle_top)) \<and>
   pixel_count (projr (main_loop sink_model (projr input_image) (main_init idle_top)))
     = IMAGE_WIDTH * IMAGE_HEIGHT \<and>
   cycle_count (projr (main_loop sink_model (projr input_image) (main_init idle_top)))
     = 614399 \<and>
   s_axis_tvalid
     (ipins (dut (projr (main_loop sink_model (projr input_image) (main_init idle_top)))))"
proof -
  from sink_run [OF input_image_size] obtain s where
    "main_loop sink_model (projr input_image) (main_init idle_top) = Inr s"
    "pixel_count s = IMAGE_WIDTH * IMAGE_HEIGHT" "cycle_count s = 614399"
    "s_axis_tvalid (ipins (dut s))"
    by blast
  then show ?thesis by simp
qed

subsection \<open>C6: the register driver performs one write\<close>

text \<open>
  Claim C6. \<open>configure_kernel\<close> drives address 0, the first coefficient, both valid
  pins and the strobes \<open>0xF\<close>; while it waits, \<open>eval\<close> is all that runs, and the pins
  driven by the harness (the clocks among them) keep their values. It returns after the
  first evaluation count \<open>n\<close> (possibly 0) at which both ready pins are high, with both
  valid pins low again and nothing else changed; it never returns when there is no such
  \<open>n\<close>. The other eight coefficients have no effect.
\<close>

theorem configure_kernel_single_write:
  fixes d :: "('u::len, 'd) vtop"
  shows "ipins (drive_write d k00) =
           (ipins d)\<lparr>s_axi_awaddr := 0, s_axi_awvalid := True, s_axi_wdata := ucast k00,
                     s_axi_wvalid := True, s_axi_wstrb := 0xF\<rparr> \<and>
         (\<forall>n. ipins ((eval M ^^ n) (drive_write d k00)) = ipins (drive_write d k00)) \<and>
         (\<forall>n. write_ready ((eval M ^^ n) (drive_write d k00)) \<and>
              (\<forall>m<n. \<not> write_ready ((eval M ^^ m) (drive_write d k00))) \<longrightarrow>
              configure_kernel M d k00 k01 k02 k10 k11 k12 k20 k21 k22 =
                Some (((eval M ^^ n) (drive_write d k00))
                        \<lparr>ipins := (ipins d)\<lparr>s_axi_awaddr := 0, s_axi_awvalid := False,
                                             s_axi_wdata := ucast k00, s_axi_wvalid := False,
                                             s_axi_wstrb := 0xF\<rparr>\<rparr>)) \<and>
         ((\<forall>n. \<not> write_ready ((eval M ^^ n) (drive_write d k00))) \<longrightarrow>
              configure_kernel M d k00 k01 k02 k10 k11 k12 k20 k21 k22 = None) \<and>
         configure_kernel M d k00 k01 k02 k10 k11 k12 k20 k21 k22 =
           configure_kernel M d k00 c01 c02 c10 c11 c12 c20 c21 c22"
proof -
  have a: "ipins ((eval M ^^ n) (drive_write d k00)) = ipins (drive_write d k00)" for n
    by simp
  have b: "configure_kernel M d k00 k01 k02 k10 k11 k12 k20 k21 k22 =
      Some (((eval M ^^ n) (drive_write d k00))
              \<lparr>ipins := (ipins d)\<lparr>s_axi_awaddr := 0, s_axi_awvalid := False,
                                   s_axi_wdata := ucast k00, s_axi_wvalid := False,
                                   s_axi_wstrb := 0xF\<rparr>\<rparr>)"
    if "write_ready ((eval M ^^ n) (drive_write d k00))"
      "\<forall>m<n. \<not> write_ready ((eval M ^^ m) (drive_write d k00))" for n
    using wait_handshake_returns [OF that]
    by (simp add: configure_kernel_def ipins_drive_write)
  have c: "configure_kernel M d k00 k01 k02 k10 k11 k12 k20 k21 k22 = None"
    if "\<forall>n. \<not> write_ready ((eval M ^^ n) (drive_write d k00))"
    using wait_handshake_never [OF that] by (simp add: configure_kernel_def)
  have e: "configure_kernel M d k00 k01 k02 k10 k11 k12 k20 k21 k22 =
           configure_kernel M d k00 c01 c02 c10 c11 c12 c20 c21 c22"
    by (simp add: configure_kernel_def)
  from a b c e ipins_drive_write [of d k00] show ?thesis
    by blast
qed

theorem configure_kernel_single_write_witness:
  "write_ready ((eval slow_write_model ^^ 2) (drive_write counting_top 7)) \<and>
   \<not> write_ready ((eval slow_write_model ^^ 0) (drive_write counting_top 7)) \<and>
   \<not> write_ready ((eval slow_write_model ^^ 1) (drive_write counting_top 7)) \<and>
   configure_kernel slow_write_model counting_top 7 255 0 255 4 255 0 255 0 =
     Some (((eval slow_write_model ^^ 2) (drive_write counting_top 7))
             \<lparr>ipins := idle_in\<lparr>s_axi_awaddr := 0, s_axi_awvalid := False,
                                s_axi_wdata := 7, s_axi_wvalid := False,
                                s_axi_wstrb := 0xF\<rparr>\<rparr>) \<and>
   configure_kernel slow_write_model counting_top 7 255 0 255 4 255 0 255 0 =
     configure_kernel slow_write_model counting_top 7 0 0 0 0 0 0 0 0"
proof -
  have r: "write_ready ((eval slow_write_model ^^ 2) (drive_write counting_top 7))"
    using slow_write_evals(3) by (simp add: numeral_2_eq_2)
  have n: "\<forall>m<2. \<not> write_ready ((eval slow_write_model ^^ m) (drive_write counting_top 7))"
  proof (intro allI impI)
    fix m :: nat assume "m < 2"
    then have "m = 0 \<or> m = 1" by linarith
    with slow_write_evals(1,2)
    show "\<not> write_ready ((eval slow_write_model ^^ m) (drive_write counting_top 7))"
      by auto
  qed
  have i: "ipins counting_top = idle_in"
    by (simp add: counting_top_def)
  note t = configure_kernel_single_write [of counting_top 7 slow_write_model 255 0 255 4 255 0 255 0
      0 0 0 0 0 0 0 0]
  from t have "write_ready ((eval slow_write_model ^^ 2) (drive_write counting_top 7)) \<and>
      (\<forall>m<2. \<not> write_ready ((eval slow_write_model ^^ m) (drive_write counting_top 7))) \<longrightarrow>
      configure_kernel slow_write_model counting_top 7 255 0 255 4 255 0 255 0 =
        Some (((eval slow_write_model ^^ 2) (drive_write counting_top 7))
                \<lparr>ipins := (ipins counting_top)\<lparr>s_axi_awaddr := 0, s_axi_awvalid := False,
                                   s_axi_wdata := ucast (7 :: u8), s_axi_wvalid := False,
                                   s_axi_wstrb := 0xF\<rparr>\<rparr>)"
    by blast
  with r n have "configure_kernel slow_write_model counting_top 7 255 0 255 4 255 0 255 0 =
        Some (((eval slow_write_model ^^ 2) (drive_write counting_top 7))
                \<lparr>ipins := idle_in\<lparr>s_axi_awaddr := 0, s_axi_awvalid := False,
                                   s_axi_wdata := 7, s_axi_wvalid := False,
                                   s_axi_wstrb := 0xF\<rparr>\<rparr>)"
    by (simp add: i)
  moreover from t have "configure_kernel slow_write_model counting_top 7 255 0 255 4 255 0 255 0 =
     configure_kernel slow_write_model counting_top 7 0 0 0 0 0 0 0 0"
    by blast
  ultimately show ?thesis
    using r slow_write_evals(1,2) by simp
qed

subsection \<open>C7: the loop is bounded\<close>

text \<open>
  Claim C7. For every DUT, the loop started by \<open>main\<close> on an input image of \<open>W * H * 3\<close>
  bytes runs at most \<open>1000000\<close> iterations and returns a state, without an access outside
  a buffer. If the DUT has \<open>m_axis_tvalid\<close> low in every state of the run, the output
  image at the exit is the zero-initialised one.
\<close>

theorem main_loop_bounded:
  fixes d :: "('u::len, 'd) vtop"
  assumes "int (length inp) = IMAGE_WIDTH * IMAGE_HEIGHT * 3"
  shows "loop_iters M inp (main_init d) \<le> 1000000 \<and>
     (\<exists>s. main_loop M inp (main_init d) = Inr s \<and>
        cycle_count s = int (loop_iters M inp (main_init d)) \<and>
        ((\<forall>k t. loop_steps k M inp (main_init d) = Inr t \<longrightarrow> \<not> m_axis_tvalid (opins (dut t)))
           \<longrightarrow> output_image s = zero_image))"
proof -
  let ?P = "\<lambda>s :: ('u, 'd) sim. offer_inv inp s \<and>
      int (length (output_image s)) = IMAGE_WIDTH * IMAGE_HEIGHT * 3"
  have a: "loop_iters M inp (main_init d) \<le> 1000000"
    using loop_iters_bound [of M inp "main_init d"] by (simp add: main_init_def)
  have init: "?P (main_init d)"
    using offer_inv_init [of inp d] zero_image_size by (simp add: main_init_def)
  have step: "\<exists>s'. loop_body M inp s = Inr s' \<and> ?P s'" if "?P s" "loop_cond s" for s
  proof -
    from that have p: "0 \<le> pixel_count s" "pixel_count s < IMAGE_WIDTH * IMAGE_HEIGHT"
      by (simp_all add: offer_inv_def loop_cond_def)
    with assms have "pixel_count s * 3 + 2 < int (length inp)" by simp
    with p have "\<exists>s1. input_side inp (toggle_clocks s) = Inr s1"
      by (intro input_side_ok) simp_all
    then obtain s1 where i: "input_side inp (toggle_clocks s) = Inr s1" ..
    from input_side_frame [OF i] that(1)
    have "int (length (output_image s1)) = IMAGE_WIDTH * IMAGE_HEIGHT * 3"
      by simp
    from consumer_ok [OF this] obtain s2 where o: "output_side s1 = Inr s2"
      and l: "length (output_image s2) = length (output_image s1)"
      by blast
    let ?s' = "s2\<lparr>dut := eval M (dut s2), cycle_count := cycle_count s2 + 1\<rparr>"
    have b: "loop_body M inp s = Inr ?s'"
      using i o by (simp add: loop_body_def)
    from offer_inv_loop_body [OF _ b] that(1) have "offer_inv inp ?s'" by simp
    moreover have "int (length (output_image ?s')) = IMAGE_WIDTH * IMAGE_HEIGHT * 3"
      using l input_side_frame [OF i] that(1) by simp
    ultimately show ?thesis
      using b by blast
  qed
  from main_loop_invariant [of ?P, OF init step]
  obtain s where m: "main_loop M inp (main_init d) = Inr s"
    by blast
  have c: "cycle_count s = int (loop_iters M inp (main_init d))"
    using main_loop_cycles [OF m] by (simp add: main_init_def)
  have z: "output_image s = zero_image"
    if q: "\<forall>k t. loop_steps k M inp (main_init d) = Inr t \<longrightarrow> \<not> m_axis_tvalid (opins (dut t))"
  proof -
    have "output_image t = zero_image" if "loop_steps k M inp (main_init d) = Inr t" for k t
      using that
    proof (induction k arbitrary: t)
      case 0
      then show ?case by (auto simp: main_init_def)
    next
      case (Suc k)
      from Suc.prems obtain t0 where r: "loop_steps k M inp (main_init d) = Inr t0"
        and n: "if loop_cond t0 then loop_body M inp t0 = Inr t else t = t0"
        unfolding loop_steps_snoc by (auto split: sum.splits if_splits)
      from Suc.IH [OF r] have i: "output_image t0 = zero_image" .
      show ?case
      proof (cases "loop_cond t0")
        case False
        with n i show ?thesis by simp
      next
        case True
        with n have b: "loop_body M inp t0 = Inr t" by simp
        then obtain s1 s2 where i1: "input_side inp (toggle_clocks t0) = Inr s1"
          and o1: "output_side s1 = Inr s2"
          and e1: "t = s2\<lparr>dut := eval M (dut s2), cycle_count := cycle_count s2 + 1\<rparr>"
          by (rule loop_body_split)
        from q r have "\<not> m_axis_tvalid (opins (dut t0))" by blast
        with input_side_frame [OF i1] have "\<not> m_axis_tvalid (opins (dut s1))" by simp
        then have "output_side s1 = Inr s1" by (simp add: output_side_idle)
        with o1 have "s2 = s1" by simp
        with e1 input_side_frame [OF i1] i show ?thesis by simp
      qed
    qed
    moreover have "loop_steps (loop_iters M inp (main_init d)) M inp (main_init d) = Inr s"
      using m by (simp only: main_loop_steps)
    ultimately show ?thesis by blast
  qed
  from a m c z show ?thesis by blast
qed

theorem main_loop_bounded_witness:
  "int (length zero_image) = IMAGE_WIDTH * IMAGE_HEIGHT * 3 \<and>
   loop_iters sink_model zero_image (main_init idle_top) \<le> 1000000 \<and>
   (\<exists>s. main_loop sink_model zero_image (main_init idle_top) = Inr s \<and>
        output_image s = zero_image)"
proof -
  have q: "\<forall>k t. loop_steps k sink_model zero_image (main_init idle_top) = Inr t
        \<longrightarrow> \<not> m_axis_tvalid (opins (dut t))"
    using sink_quiet by blast
  from main_loop_bounded [OF zero_image_size, of sink_model idle_top] q zero_image_size
  show ?thesis by blast
qed

subsection \<open>C8: one pending pixel, offered again unchanged\<close>

text \<open>
  Claim C8. In every state of the run from which the loop iterates, valid is high exactly
  when the producer waits for a handshake. While valid is high and ready is low, the
  iteration leaves valid, data, last and user as they are and offers no pixel. When the
  handshake is seen, the iteration lowers valid and offers no pixel. A pixel is offered
  only from a state with valid low, and one at a time.
\<close>

theorem producer_single_pending_reoffer:
  fixes s s' :: "('u::len, 'd) sim"
  assumes "loop_steps k M inp (main_init d) = Inr s" "loop_cond s" "loop_body M inp s = Inr s'"
  shows "(s_axis_tvalid (ipins (dut s)) \<longleftrightarrow> \<not> input_active s) \<and>
         (s_axis_tvalid (ipins (dut s)) \<and> \<not> s_axis_tready (opins (dut s)) \<longrightarrow>
            s_axis_tvalid (ipins (dut s')) \<and>
            s_axis_tdata (ipins (dut s')) = s_axis_tdata (ipins (dut s)) \<and>
            s_axis_tlast (ipins (dut s')) = s_axis_tlast (ipins (dut s)) \<and>
            s_axis_tuser (ipins (dut s')) = s_axis_tuser (ipins (dut s)) \<and>
            pixel_count s' = pixel_count s) \<and>
         (s_axis_tvalid (ipins (dut s)) \<and> s_axis_tready (opins (dut s)) \<longrightarrow>
            \<not> s_axis_tvalid (ipins (dut s')) \<and> pixel_count s' = pixel_count s) \<and>
         (\<not> s_axis_tvalid (ipins (dut s)) \<longrightarrow>
            s_axis_tvalid (ipins (dut s')) \<and> pixel_count s' = pixel_count s + 1)"
proof -
  from offer_inv_run [OF assms(1)] have inv: "offer_inv inp s" .
  then have a: "input_active s \<longleftrightarrow> \<not> s_axis_tvalid (ipins (dut s))"
    by (simp add: offer_inv_def)
  from assms(2) have c: "pixel_count s < IMAGE_WIDTH * IMAGE_HEIGHT"
    by (simp add: loop_cond_def)
  from assms(3) obtain s1 where i: "input_side inp (toggle_clocks s) = Inr s1"
    and eq: "ipins (dut s') = ipins (dut s1)" "pixel_count s' = pixel_count s1"
    by (rule loop_body_producer)
  have hold: "s1 = toggle_clocks s"
    if "s_axis_tvalid (ipins (dut s))" "\<not> s_axis_tready (opins (dut s))"
    using that a i unfolding input_side_cases by simp
  have retire: "s1 = retired (toggle_clocks s)"
    if "s_axis_tvalid (ipins (dut s))" "s_axis_tready (opins (dut s))"
    using that a i unfolding input_side_cases by simp
  have offer: "s1 = offered inp (toggle_clocks s)"
    if "\<not> s_axis_tvalid (ipins (dut s))"
    using that a c i unfolding input_side_cases by (simp split: if_splits)
  show ?thesis
    using a hold retire offer
    by (auto simp: eq retired_def offered_def)
qed

theorem producer_single_pending_reoffer_witness:
  "\<exists>s s'. loop_steps 1 stall_model zero_image (main_init idle_top) = Inr s \<and> loop_cond s \<and>
     loop_body stall_model zero_image s = Inr s' \<and>
     s_axis_tvalid (ipins (dut s)) \<and> \<not> s_axis_tready (opins (dut s)) \<and> \<not> input_active s \<and>
     s_axis_tvalid (ipins (dut s')) \<and>
     s_axis_tdata (ipins (dut s')) = s_axis_tdata (ipins (dut s)) \<and>
     s_axis_tlast (ipins (dut s')) = s_axis_tlast (ipins (dut s)) \<and>
     s_axis_tuser (ipins (dut s')) = s_axis_tuser (ipins (dut s)) \<and>
     pixel_count s' = pixel_count s"
proof -
  from stall_first_step obtain s where
    b: "loop_body stall_model zero_image (main_init idle_top) = Inr s"
    and v: "s_axis_tvalid (ipins (dut s))" and nr: "\<not> s_axis_tready (opins (dut s))"
    and nv: "\<not> m_axis_tvalid (opins (dut s))"
    and p: "pixel_count s = 1" and cy: "cycle_count s = 1" and ia: "\<not> input_active s"
    by blast
  have r: "loop_steps 1 stall_model zero_image (main_init idle_top) = Inr s"
    using b by (simp add: loop_cond_def main_init_def IMAGE_WIDTH_def IMAGE_HEIGHT_def)
  have c: "loop_cond s"
    using p cy by (simp add: loop_cond_def IMAGE_WIDTH_def IMAGE_HEIGHT_def)
  have "\<exists>s'. loop_body stall_model zero_image s = Inr s'"
    using v nr nv ia by (simp add: loop_body_def input_side_cases output_side_def)
  then obtain s' where b': "loop_body stall_model zero_image s = Inr s'" ..
  from producer_single_pending_reoffer [OF r c b'] v nr ia r c b'
  show ?thesis
    by (intro exI [of _ s] exI [of _ s']) simp
qed

subsection \<open>C9: last-in-row\<close>

text \<open>
  Claim C9. In every state of the run in which \<open>s_axis_tvalid\<close> is high, the pins carry
  transfer \<open>i = pixel_count - 1\<close> (its packed bytes and its column), and \<open>s_axis_tlast\<close>
  is high if and only if \<open>(i + 1) mod W = 0\<close>.
\<close>

theorem producer_tlast_end_of_row:
  fixes s :: "('u::len, 'd) sim"
  assumes "loop_steps k M inp (main_init d) = Inr s"
    and "s_axis_tvalid (ipins (dut s))"
  shows "0 \<le> pixel_count s - 1 \<and> pixel_count s - 1 < IMAGE_WIDTH * IMAGE_HEIGHT \<and>
         s_axis_tdata (ipins (dut s))
           = pack_rgb (inp ! nat ((pixel_count s - 1) * 3))
                      (inp ! nat ((pixel_count s - 1) * 3 + 1))
                      (inp ! nat ((pixel_count s - 1) * 3 + 2)) \<and>
         s_axis_tuser (ipins (dut s)) = word_of_int ((pixel_count s - 1) mod IMAGE_WIDTH) \<and>
         (s_axis_tlast (ipins (dut s)) \<longleftrightarrow> ((pixel_count s - 1) + 1) mod IMAGE_WIDTH = 0)"
  using offer_inv_run [OF assms(1)] assms(2) by (simp add: offer_inv_def)

theorem producer_tlast_end_of_row_witness:
  "\<exists>s. loop_steps 1 stall_model zero_image (main_init idle_top) = Inr s \<and>
     s_axis_tvalid (ipins (dut s)) \<and> pixel_count s - 1 = 0 \<and>
     (s_axis_tlast (ipins (dut s)) \<longleftrightarrow> (0 + 1) mod IMAGE_WIDTH = 0) \<and>
     \<not> s_axis_tlast (ipins (dut s))"
proof -
  from stall_first_step obtain s where
    b: "loop_body stall_model zero_image (main_init idle_top) = Inr s"
    and v: "s_axis_tvalid (ipins (dut s))" and p: "pixel_count s = 1"
    and l: "\<not> s_axis_tlast (ipins (dut s))"
    by blast
  have r: "loop_steps 1 stall_model zero_image (main_init idle_top) = Inr s"
    using b by (simp add: loop_cond_def main_init_def IMAGE_WIDTH_def IMAGE_HEIGHT_def)
  from producer_tlast_end_of_row [OF r v] p l
  have "s_axis_tlast (ipins (dut s)) \<longleftrightarrow> (0 + 1) mod IMAGE_WIDTH = 0"
    by simp
  with r v p l show ?thesis
    by (intro exI [of _ s]) simp
qed

subsection \<open>C10: the frame source\<close>

text \<open>
  Claim C10. The frame source runs without an access outside the buffer of
  \<open>W * H * 3\<close> bytes that \<open>main\<close> gives it, and leaves at every pixel \<open>(x, y)\<close> with
  \<open>0 \<le> x < W\<close> and \<open>0 \<le> y < H\<close> the bytes \<open>R = x * 255 div W\<close>, \<open>G = y * 255 div H\<close> and
  \<open>B = (x + y) * 255 div (W + H)\<close>. The result is a function of nothing but the constants.
\<close>

theorem frame_source_gradient:
  "\<exists>img. input_image = Inr img \<and> int (length img) = IMAGE_WIDTH * IMAGE_HEIGHT * 3 \<and>
     (\<forall>x y. 0 \<le> x \<and> x < IMAGE_WIDTH \<and> 0 \<le> y \<and> y < IMAGE_HEIGHT \<longrightarrow>
        uint (img ! nat ((y * IMAGE_WIDTH + x) * 3 + 0)) = (x * 255) div IMAGE_WIDTH \<and>
        uint (img ! nat ((y * IMAGE_WIDTH + x) * 3 + 1)) = (y * 255) div IMAGE_HEIGHT \<and>
        uint (img ! nat ((y * IMAGE_WIDTH + x) * 3 + 2))
          = ((x + y) * 255) div (IMAGE_WIDTH + IMAGE_HEIGHT))"
proof -
  from generate_test_pattern_ok obtain img where i: "input_image = Inr img"
    and l: "length img = nat (IMAGE_WIDTH * IMAGE_HEIGHT * 3)"
    and g: "\<And>y x. 0 \<le> y \<and> y < IMAGE_HEIGHT \<and> 0 \<le> x \<and> x < IMAGE_WIDTH \<Longrightarrow> gradient_at img y x"
    by blast
  have l': "int (length img) = IMAGE_WIDTH * IMAGE_HEIGHT * 3"
    unfolding l by (simp add: IMAGE_WIDTH_def IMAGE_HEIGHT_def)
  have g': "gradient_at img y x" if "0 \<le> x \<and> x < IMAGE_WIDTH \<and> 0 \<le> y \<and> y < IMAGE_HEIGHT" for x y
    using that by (intro g) simp
  show ?thesis
    using i l' g' unfolding gradient_at_def by (intro exI [of _ img]) simp
qed

theorem frame_source_gradient_witness:
  "\<exists>img. input_image = Inr img \<and> length img = 921600 \<and>
     uint (img ! 1929) = 1 \<and> uint (img ! 1930) = 0 \<and> uint (img ! 1931) = 0 \<and>
     uint (img ! 921597) = 254 \<and> uint (img ! 921598) = 254 \<and> uint (img ! 921599) = 254"
proof -
  from frame_source_gradient obtain img where i: "input_image = Inr img"
    and l: "int (length img) = IMAGE_WIDTH * IMAGE_HEIGHT * 3"
    and g: "\<And>x y. 0 \<le> x \<and> x < IMAGE_WIDTH \<and> 0 \<le> y \<and> y < IMAGE_HEIGHT \<longrightarrow>
        uint (img ! nat ((y * IMAGE_WIDTH + x) * 3 + 0)) = (x * 255) div IMAGE_WIDTH \<and>
        uint (img ! nat ((y * IMAGE_WIDTH + x) * 3 + 1)) = (y * 255) div IMAGE_HEIGHT \<and>
        uint (img ! nat ((y * IMAGE_WIDTH + x) * 3 + 2))
          = ((x + y) * 255) div (IMAGE_WIDTH + IMAGE_HEIGHT)"
    by blast
  have "length img = 921600"
    using l by (simp add: IMAGE_WIDTH_def IMAGE_HEIGHT_def)
  moreover have "uint (img ! 1929) = 1 \<and> uint (img ! 1930) = 0 \<and> uint (img ! 1931) = 0"
    using g [of 3 1] by (simp add: IMAGE_WIDTH_def IMAGE_HEIGHT_def)
  moreover have "uint (img ! 921597) = 254 \<and> uint (img ! 921598) = 254 \<and> uint (img ! 921599) = 254"
    using g [of 639 479] by (simp add: IMAGE_WIDTH_def IMAGE_HEIGHT_def)
  ultimately show ?thesis
    using i by (intro exI [of _ img]) simp
qed

end
